theory Spec2Isabelle
  imports Complex_Main
begin

section \<open>Numbers\<close>

text \<open>
  The tracker computes with JavaScript numbers. Coordinates, areas and scores are modelled
  as exact reals; timestamps (\<open>Date.now()\<close>, milliseconds) as integers; track identifiers
  as naturals. The one operation that leaves the finite numbers in exact arithmetic is
  the division in \<open>calculateIoU\<close>: a zero divisor gives \<open>NaN\<close> (for \<open>0 / 0\<close>) or an
  infinity. Its result is therefore a \<open>jsnum\<close>, and the comparisons of the matching loop
  are the JavaScript comparisons on such values. Rounding of IEEE doubles, signed zeros and
  the end of exact counting at \<open>2^53\<close> are not modelled. What a rounded sum or product
  does to the value of a score is therefore outside this theory: in exact arithmetic the
  divisor of line 26 is positive past the guard of line 23 (lemma \<open>unionArea_pos\<close>),
  whereas with doubles the sums of line 16 and 17 can round so that the divisor is zero.
  The theorems on the matching loop are about how the loop compares and uses the scores.
\<close>

datatype jsnum = Num real | NaN | PosInf | NegInf

definition js_div :: "real \<Rightarrow> real \<Rightarrow> jsnum" where
  "js_div a b =
     (if b \<noteq> 0 then Num (a / b)
      else if a = 0 then NaN
      else if 0 < a then PosInf else NegInf)"

fun isNaN :: "jsnum \<Rightarrow> bool" where
  "isNaN NaN = True"
| "isNaN _ = False"

text \<open>\<open>js_gt a b\<close> is the JavaScript comparison \<open>a > b\<close>: false whenever an operand is \<open>NaN\<close>.\<close>

fun js_gt :: "jsnum \<Rightarrow> jsnum \<Rightarrow> bool" where
  "js_gt (Num a) (Num b) = (b < a)"
| "js_gt PosInf (Num b) = True"
| "js_gt PosInf NegInf = True"
| "js_gt (Num a) NegInf = True"
| "js_gt _ _ = False"

section \<open>Regions and the overlap score\<close>

record BoundingBox =
  box_x :: real
  box_y :: real
  width :: real
  height :: real

text \<open>
  Lines 13 to 29 in exact arithmetic. The division is JavaScript's, so that the test of
  line 28 is a branch of the model; the sums, differences and products are those of the
  reals.
\<close>

definition calculateIoU :: "BoundingBox \<Rightarrow> BoundingBox \<Rightarrow> jsnum" where
  "calculateIoU boxA boxB =
     (let xA = max (box_x boxA) (box_x boxB);
          yA = max (box_y boxA) (box_y boxB);
          xB = min (box_x boxA + width boxA) (box_x boxB + width boxB);
          yB = min (box_y boxA + height boxA) (box_y boxB + height boxB);
          intersectionArea = max 0 (xB - xA) * max 0 (yB - yA);
          boxAArea = width boxA * height boxA;
          boxBArea = width boxB * height boxB
      in if boxAArea \<le> 0 \<or> boxBArea \<le> 0 then Num 0
         else let unionArea = boxAArea + boxBArea - intersectionArea;
                  iou = js_div intersectionArea unionArea
              in if isNaN iou then Num 0 else iou)"

section \<open>Track table and detections\<close>

datatype Emotion = Happy | Sad | Angry | Surprised | Neutral | Disgusted | Fearful

record StudentInfo =
  studentName :: string
  rollNumber :: string

record FaceResult =
  personId :: string
  emotion :: Emotion
  confidence :: real
  boundingBox :: BoundingBox
  persistentId :: "nat option"
  studentInfo :: "StudentInfo option"

text \<open>
  The value type of \<open>trackedFacesRef\<close>. Its \<open>boundingBox\<close> field is named \<open>trackBox\<close>
  here, since a record field name is global.
\<close>

record TrackData =
  trackBox :: BoundingBox
  lastSeen :: int
  geminiId :: string

text \<open>
  A JavaScript \<open>Map\<close> iterates in insertion order, and \<open>set\<close> on a key already present
  replaces the value where the key stands. The Track Table is an association list with
  those operations.
\<close>

type_synonym TrackTable = "(nat \<times> TrackData) list"

fun map_set :: "'k \<Rightarrow> 'v \<Rightarrow> ('k \<times> 'v) list \<Rightarrow> ('k \<times> 'v) list" where
  "map_set k v [] = [(k, v)]"
| "map_set k v ((k', v') # m) =
     (if k' = k then (k, v) # m else (k', v') # map_set k v m)"

definition map_has :: "'k \<Rightarrow> ('k \<times> 'v) list \<Rightarrow> bool" where
  "map_has k m = (k \<in> set (map fst m))"

definition map_get :: "('k \<times> 'v) list \<Rightarrow> 'k \<Rightarrow> 'v option" where
  "map_get m k = map_of m k"

record MatchedPair =
  trackId :: nat
  detection :: FaceResult
  detectionIndex :: nat

record TrackerState =
  trackedFaces :: TrackTable
  nextFaceId :: nat

definition IOU_THRESHOLD :: real where
  "IOU_THRESHOLD = 4 / 10"

definition MAX_INACTIVITY_MS :: int where
  "MAX_INACTIVITY_MS = 20000"

definition ATTENDANCE_LOG_INTERVAL_MS :: int where
  "ATTENDANCE_LOG_INTERVAL_MS = 5 * 60 * 1000"

section \<open>The reconcile cycle\<close>

text \<open>
  The inner \<open>forEach\<close> of the matching loop (lines 200 to 207): the pair
  \<open>(bestMatchIndex, bestIoU)\<close> is threaded through the detections, \<open>None\<close> standing for
  the index \<open>-1\<close>.
\<close>

fun scanDetections ::
  "BoundingBox \<Rightarrow> nat set \<Rightarrow> FaceResult list \<Rightarrow> nat \<Rightarrow> nat option \<times> jsnum \<Rightarrow> nat option \<times> jsnum"
where
  "scanDetections box used [] index best = best"
| "scanDetections box used (d # ds) index (bestMatchIndex, bestIoU) =
     (if index \<in> used then scanDetections box used ds (Suc index) (bestMatchIndex, bestIoU)
      else let iou = calculateIoU box (boundingBox d)
           in if js_gt iou bestIoU \<and> js_gt iou (Num IOU_THRESHOLD)
              then scanDetections box used ds (Suc index) (Some index, iou)
              else scanDetections box used ds (Suc index) (bestMatchIndex, bestIoU))"

definition findBestMatch :: "BoundingBox \<Rightarrow> nat set \<Rightarrow> FaceResult list \<Rightarrow> nat option" where
  "findBestMatch box used newDetections =
     fst (scanDetections box used newDetections 0 (None, Num 0))"

text \<open>The loop over the entries of the Track Table (lines 197 to 213).\<close>

fun matchTracks ::
  "TrackTable \<Rightarrow> FaceResult list \<Rightarrow> MatchedPair list \<times> nat set \<Rightarrow> MatchedPair list \<times> nat set"
where
  "matchTracks [] newDetections acc = acc"
| "matchTracks ((tid, trackData) # rest) newDetections (matchedPairs, usedDetectionIndices) =
     (case findBestMatch (trackBox trackData) usedDetectionIndices newDetections of
        None \<Rightarrow> matchTracks rest newDetections (matchedPairs, usedDetectionIndices)
      | Some bestMatchIndex \<Rightarrow>
          matchTracks rest newDetections
            (matchedPairs @
               [\<lparr>trackId = tid, detection = newDetections ! bestMatchIndex,
                 detectionIndex = bestMatchIndex\<rparr>],
             insert bestMatchIndex usedDetectionIndices))"

text \<open>
  Lines 217 to 222: each matched pair refreshes its track in the new table and stamps the
  track's identifier on the detection. The pair holds a reference to the detection
  object of \<open>newDetections\<close>, so the assignment to \<open>detection.persistentId\<close> is an update
  of the list at the pair's index.
\<close>

fun applyMatches ::
  "int \<Rightarrow> MatchedPair list \<Rightarrow> TrackTable \<times> FaceResult list \<Rightarrow> TrackTable \<times> FaceResult list"
where
  "applyMatches currentTime [] acc = acc"
| "applyMatches currentTime (p # ps) (newTrackedFaces, newDetections) =
     applyMatches currentTime ps
       (map_set (trackId p)
          \<lparr>trackBox = boundingBox (detection p), lastSeen = currentTime,
           geminiId = personId (detection p)\<rparr> newTrackedFaces,
        newDetections[detectionIndex p :=
          (newDetections ! detectionIndex p)\<lparr>persistentId := Some (trackId p)\<rparr>])"

text \<open>
  Lines 224 to 232: every detection whose index was not consumed becomes a new track
  under the next identifier. The result is the stamped detections, the table and the
  counter.
\<close>

fun createTracks ::
  "nat set \<Rightarrow> int \<Rightarrow> FaceResult list \<Rightarrow> nat \<Rightarrow> TrackTable \<Rightarrow> nat
   \<Rightarrow> FaceResult list \<times> TrackTable \<times> nat"
where
  "createTracks used currentTime [] index newTrackedFaces nextId = ([], newTrackedFaces, nextId)"
| "createTracks used currentTime (d # ds) index newTrackedFaces nextId =
     (if index \<notin> used
      then let newId = nextId;
               (ds', tbl', nextId') =
                 createTracks used currentTime ds (Suc index)
                   (map_set newId
                      \<lparr>trackBox = boundingBox d, lastSeen = currentTime, geminiId = personId d\<rparr>
                      newTrackedFaces)
                   (Suc nextId)
           in (d\<lparr>persistentId := Some newId\<rparr> # ds', tbl', nextId')
      else let (ds', tbl', nextId') =
                 createTracks used currentTime ds (Suc index) newTrackedFaces nextId
           in (d # ds', tbl', nextId'))"

text \<open>Lines 234 to 238: the tracks of the previous table that are carried forward.\<close>

fun carryForward :: "int \<Rightarrow> TrackTable \<Rightarrow> TrackTable \<Rightarrow> TrackTable" where
  "carryForward currentTime [] newTrackedFaces = newTrackedFaces"
| "carryForward currentTime ((tid, trackData) # rest) newTrackedFaces =
     carryForward currentTime rest
       (if currentTime - lastSeen trackData \<le> MAX_INACTIVITY_MS \<and> \<not> map_has tid newTrackedFaces
        then map_set tid trackData newTrackedFaces
        else newTrackedFaces)"

text \<open>
  The face tracking logic of \<open>captureAndAnalyze\<close> (lines 189 to 240) on the tracker's
  state: the annotated detections and the state after the cycle.
\<close>

definition reconcile ::
  "'a TrackerState_scheme \<Rightarrow> FaceResult list \<Rightarrow> int \<Rightarrow> FaceResult list \<times> 'a TrackerState_scheme"
where
  "reconcile s newDetections currentTime =
     (case matchTracks (trackedFaces s) newDetections ([], {}) of
        (matchedPairs, usedDetectionIndices) \<Rightarrow>
     (case applyMatches currentTime matchedPairs ([], newDetections) of
        (tbl1, ds1) \<Rightarrow>
     (case createTracks usedDetectionIndices currentTime ds1 0 tbl1 (nextFaceId s) of
        (ds2, tbl2, nextId') \<Rightarrow>
          (ds2, s\<lparr>trackedFaces := carryForward currentTime (trackedFaces s) tbl2,
                  nextFaceId := nextId'\<rparr>))))"

text \<open>The pairs recorded and the indices consumed by the matching loop of a cycle.\<close>

definition matchedPairsOf :: "'a TrackerState_scheme \<Rightarrow> FaceResult list \<Rightarrow> MatchedPair list" where
  "matchedPairsOf s newDetections = fst (matchTracks (trackedFaces s) newDetections ([], {}))"

definition usedIndicesOf :: "'a TrackerState_scheme \<Rightarrow> FaceResult list \<Rightarrow> nat set" where
  "usedIndicesOf s newDetections = snd (matchTracks (trackedFaces s) newDetections ([], {}))"

text \<open>
  The identifiers given to new tracks in a cycle: those stamped on the detections that
  the matching loop left unconsumed, in the order of the detections.
\<close>

definition createdIds :: "'a TrackerState_scheme \<Rightarrow> FaceResult list \<Rightarrow> int \<Rightarrow> nat list" where
  "createdIds s newDetections currentTime =
     concat (map (\<lambda>i. if i \<in> usedIndicesOf s newDetections then []
                        else (case persistentId (fst (reconcile s newDetections currentTime) ! i) of
                                None \<Rightarrow> [] | Some n \<Rightarrow> [n]))
                 [0..<length newDetections])"

subsection \<open>A capture session\<close>

text \<open>
  The tracker as \<open>handleStartCamera\<close> leaves it (lines 76 and 77), and a session as a
  sequence of successful cycles, each with its detections and its clock reading. A cycle
  whose detection call fails leaves the tracker as it was, so it adds no state.
\<close>

definition sessionStart :: TrackerState where
  "sessionStart = \<lparr>trackedFaces = [], nextFaceId = 1\<rparr>"

fun runCycles ::
  "'a TrackerState_scheme \<Rightarrow> (FaceResult list \<times> int) list \<Rightarrow> 'a TrackerState_scheme"
where
  "runCycles s [] = s"
| "runCycles s ((newDetections, currentTime) # rest) =
     runCycles (snd (reconcile s newDetections currentTime)) rest"

fun sessionCreatedIds :: "'a TrackerState_scheme \<Rightarrow> (FaceResult list \<times> int) list \<Rightarrow> nat list" where
  "sessionCreatedIds s [] = []"
| "sessionCreatedIds s ((newDetections, currentTime) # rest) =
     createdIds s newDetections currentTime
     @ sessionCreatedIds (snd (reconcile s newDetections currentTime)) rest"

section \<open>Attendance logging\<close>

record AttendanceRecord =
  att_persistentId :: nat
  timestamp :: int
  att_emotion :: Emotion

text \<open>The truthiness test \<open>if (face.persistentId)\<close>: an absent identifier and \<open>0\<close> are falsy.\<close>

fun truthy_id :: "nat option \<Rightarrow> bool" where
  "truthy_id None = False"
| "truthy_id (Some n) = (n \<noteq> 0)"

text \<open>
  The test \<open>!lastLog || currentTime - lastLog > ATTENDANCE_LOG_INTERVAL_MS\<close> of line 251;
  \<open>!lastLog\<close> holds for a missing entry and for the timestamp \<open>0\<close>.
\<close>

fun logDue :: "int option \<Rightarrow> int \<Rightarrow> bool" where
  "logDue None currentTime = True"
| "logDue (Some lastLog) currentTime =
     (lastLog = 0 \<or> currentTime - lastLog > ATTENDANCE_LOG_INTERVAL_MS)"

text \<open>
  The body of the \<open>forEach\<close> of lines 243 to 261 for one face: the face (with the
  student's record attached), the Last-Logged Registry and the attendance list.
\<close>

definition logFace ::
  "(nat \<rightharpoonup> StudentInfo) \<Rightarrow> int \<Rightarrow> FaceResult \<Rightarrow> (nat \<rightharpoonup> int) \<times> AttendanceRecord list
   \<Rightarrow> FaceResult \<times> (nat \<rightharpoonup> int) \<times> AttendanceRecord list"
where
  "logFace students currentTime face st =
     (case st of (lastAttendanceLog, attendance) \<Rightarrow>
        if truthy_id (persistentId face) then
          (case students (the (persistentId face)) of
             None \<Rightarrow> (face, lastAttendanceLog, attendance)
           | Some info \<Rightarrow>
               if logDue (lastAttendanceLog (the (persistentId face))) currentTime
               then (face\<lparr>studentInfo := Some info\<rparr>,
                     lastAttendanceLog(the (persistentId face) \<mapsto> currentTime),
                     attendance @
                       [\<lparr>att_persistentId = the (persistentId face), timestamp = currentTime,
                         att_emotion = emotion face\<rparr>])
               else (face\<lparr>studentInfo := Some info\<rparr>, lastAttendanceLog, attendance))
        else (face, lastAttendanceLog, attendance))"

fun logFaces ::
  "(nat \<rightharpoonup> StudentInfo) \<Rightarrow> int \<Rightarrow> FaceResult list \<Rightarrow> (nat \<rightharpoonup> int) \<times> AttendanceRecord list
   \<Rightarrow> FaceResult list \<times> (nat \<rightharpoonup> int) \<times> AttendanceRecord list"
where
  "logFaces students currentTime [] st = ([], st)"
| "logFaces students currentTime (face # faces) st =
     (case logFace students currentTime face st of
        (face', st') \<Rightarrow>
          (case logFaces students currentTime faces st' of
             (faces', st'') \<Rightarrow> (face' # faces', st'')))"

section \<open>The application state and its handlers\<close>

datatype HandSign =
  ThumbsUp | ThumbsDown | Peace | OK | Fist | Wave | Pointing | HighFive | CallMe
  | CrossedFingers | Love

record HandResult =
  sign :: HandSign
  handConfidence :: real
  handBox :: BoundingBox

record DetectionResult =
  faces :: "FaceResult list"
  hands :: "HandResult list"

text \<open>
  The state of the \<open>App\<close> component: the two refs of the tracker, extended by the React
  state and the other refs the handlers touch. \<open>stream\<close> is whether a media stream is
  held; \<open>cooldownTimers\<close> counts the callbacks scheduled by \<open>setTimeout\<close> in the rate
  limit branch that have not fired yet. A state setter is modelled as an assignment.
\<close>

record AppState = TrackerState +
  stream :: bool
  detectionResult :: DetectionResult
  appError :: "(string \<times> string) option"
  isApiError :: bool
  videoDimensions :: "nat \<times> nat"
  isPausedForRateLimit :: bool
  students :: "nat \<rightharpoonup> StudentInfo"
  attendance :: "AttendanceRecord list"
  lastAttendanceLog :: "nat \<rightharpoonup> int"
  isProcessing :: bool
  cooldownTimers :: nat

text \<open>How \<open>getUserMedia\<close> ends in \<open>handleStartCamera\<close>.\<close>

datatype CameraOutcome =
  Unsupported | Granted | NotAllowedError | NotFoundError | NotReadableError
  | OtherDOMException | UnknownFailure

definition cameraError :: "CameraOutcome \<Rightarrow> (string \<times> string) option" where
  "cameraError outcome =
     (case outcome of
        Granted \<Rightarrow> None
      | Unsupported \<Rightarrow> Some (''Unsupported Browser'',
          ''Your browser does not support the necessary features (getUserMedia). Please try a modern browser like Chrome or Firefox.'')
      | NotAllowedError \<Rightarrow> Some (''Camera Permission Denied'',
          ''Please allow camera access in your browser settings and refresh the page to use this feature.'')
      | NotFoundError \<Rightarrow> Some (''No Camera Found'',
          ''We couldn't find a camera connected to your device. Please ensure it is properly connected.'')
      | NotReadableError \<Rightarrow> Some (''Camera in Use'',
          ''Your camera might be in use by another application. Please close other apps and try again.'')
      | OtherDOMException \<Rightarrow> Some (''Camera Error'',
          ''An unexpected error occurred while accessing the camera. Please check your device and browser settings.'')
      | UnknownFailure \<Rightarrow> Some (''Could Not Access Camera'',
          ''An unknown error occurred. Please ensure your camera is not in use by another application and that you have granted permissions.''))"

definition handleStartCamera :: "CameraOutcome \<Rightarrow> AppState \<Rightarrow> AppState" where
  "handleStartCamera outcome s =
     (let s1 = s\<lparr>appError := None, isPausedForRateLimit := False,
                  detectionResult := \<lparr>faces = [], hands = []\<rparr>,
                  trackedFaces := [], nextFaceId := 1\<rparr>
      in case cameraError outcome of
           None \<Rightarrow> s1\<lparr>stream := True\<rparr>
         | Some e \<Rightarrow> s1\<lparr>appError := Some e\<rparr>)"

definition handleStopCamera :: "AppState \<Rightarrow> AppState" where
  "handleStopCamera s =
     (if stream s
      then s\<lparr>stream := False, detectionResult := \<lparr>faces = [], hands = []\<rparr>,
             videoDimensions := (0, 0), trackedFaces := [], isPausedForRateLimit := False\<rparr>
      else s)"

text \<open>
  What one call of \<open>captureAndAnalyze\<close> meets: whether the video and canvas elements are
  there, the size of the video, whether the canvas gives a drawing context, and how the
  detection call ends.
\<close>

datatype DetectOutcome = Detected DetectionResult | RateLimit | OtherFailure

record FrameEnv =
  refsPresent :: bool
  videoWidth :: nat
  videoHeight :: nat
  contextPresent :: bool

text \<open>
  One call of \<open>captureAndAnalyze\<close>, from its guard to the reset of the busy flag. The
  call is one step: what may happen while it awaits the detection is not modelled.
\<close>

definition captureAndAnalyze :: "FrameEnv \<Rightarrow> DetectOutcome \<Rightarrow> int \<Rightarrow> AppState \<Rightarrow> AppState" where
  "captureAndAnalyze env outcome currentTime s =
     (if isProcessing s \<or> \<not> refsPresent env \<or> \<not> stream s then s
      else if videoWidth env = 0 \<or> videoHeight env = 0 then s\<lparr>isProcessing := False\<rparr>
      else if \<not> contextPresent env then s\<lparr>isProcessing := False\<rparr>
      else
        (case outcome of
           Detected result \<Rightarrow>
             (case reconcile s (faces result) currentTime of
                (newDetections, s1) \<Rightarrow>
                  (case logFaces (students s) currentTime newDetections
                          (lastAttendanceLog s, attendance s) of
                     (newDetections', lastLog', attendance') \<Rightarrow>
                       s1\<lparr>lastAttendanceLog := lastLog', attendance := attendance',
                          detectionResult := result\<lparr>faces := newDetections'\<rparr>,
                          appError := (if isApiError s then None else appError s),
                          isApiError := False, isProcessing := False\<rparr>))
         | RateLimit \<Rightarrow>
             s\<lparr>appError := Some (''API Rate Limit Exceeded'',
                  ''Too many requests. Analysis is paused and will resume automatically in 61 seconds.''),
               isApiError := True, isPausedForRateLimit := True,
               cooldownTimers := Suc (cooldownTimers s),
               detectionResult := \<lparr>faces = [], hands = []\<rparr>, isProcessing := False\<rparr>
         | OtherFailure \<Rightarrow>
             s\<lparr>appError := Some (''Analysis Failed'',
                  ''Could not analyze the frame. Retrying automatically...''),
               isApiError := True,
               detectionResult := \<lparr>faces = [], hands = []\<rparr>, isProcessing := False\<rparr>))"

text \<open>
  The callback of the cooldown timer (lines 279 to 287), when one is pending;
  \<open>srcObject\<close> is whether the video element still has a source.
\<close>

definition cooldownElapsed :: "bool \<Rightarrow> AppState \<Rightarrow> AppState" where
  "cooldownElapsed srcObject s =
     (if cooldownTimers s = 0 then s
      else if srcObject
      then s\<lparr>isPausedForRateLimit := False, appError := None, isApiError := False,
             cooldownTimers := cooldownTimers s - 1\<rparr>
      else s\<lparr>isPausedForRateLimit := False, cooldownTimers := cooldownTimers s - 1\<rparr>)"

section \<open>Notions used in the statements and proofs\<close>

definition area :: "BoundingBox \<Rightarrow> real" where
  "area b = width b * height b"

definition intersectionArea :: "BoundingBox \<Rightarrow> BoundingBox \<Rightarrow> real" where
  "intersectionArea boxA boxB =
     max 0 (min (box_x boxA + width boxA) (box_x boxB + width boxB) - max (box_x boxA) (box_x boxB))
   * max 0 (min (box_y boxA + height boxA) (box_y boxB + height boxB) - max (box_y boxA) (box_y boxB))"

text \<open>The overlap score as a real number; \<open>calculateIoU_Num\<close> shows it is what the code returns.\<close>

definition iou :: "BoundingBox \<Rightarrow> BoundingBox \<Rightarrow> real" where
  "iou a b = (if area a \<le> 0 \<or> area b \<le> 0 then 0
              else intersectionArea a b / (area a + area b - intersectionArea a b))"

definition score :: "BoundingBox \<Rightarrow> FaceResult \<Rightarrow> real" where
  "score box d = iou box (boundingBox d)"

definition refreshed :: "int \<Rightarrow> FaceResult \<Rightarrow> TrackData" where
  "refreshed currentTime d =
     \<lparr>trackBox = boundingBox d, lastSeen = currentTime, geminiId = personId d\<rparr>"

text \<open>The entries that \<open>createTracks\<close> adds, and the identifiers it stamps.\<close>

fun newEntries :: "nat set \<Rightarrow> int \<Rightarrow> FaceResult list \<Rightarrow> nat \<Rightarrow> nat \<Rightarrow> (nat \<times> TrackData) list" where
  "newEntries used now [] index nextId = []"
| "newEntries used now (d # ds) index nextId =
     (if index \<notin> used then (nextId, refreshed now d) # newEntries used now ds (Suc index) (Suc nextId)
      else newEntries used now ds (Suc index) nextId)"

definition stampOf :: "FaceResult \<Rightarrow> nat list" where
  "stampOf d = (case persistentId d of None \<Rightarrow> [] | Some n \<Rightarrow> [n])"

text \<open>The test of line 235 on an entry of the previous table.\<close>

definition survives :: "int \<Rightarrow> (nat \<times> TrackData) list \<Rightarrow> nat \<times> TrackData \<Rightarrow> bool" where
  "survives currentTime tbl e =
     (currentTime - lastSeen (snd e) \<le> MAX_INACTIVITY_MS \<and> \<not> map_has (fst e) tbl)"

text \<open>
  The invariant of the tracker's state: the keys of the table are distinct, as those of a
  \<open>Map\<close> are, and each is at least 1 and below the counter.
\<close>

definition tracker_inv :: "'a TrackerState_scheme \<Rightarrow> bool" where
  "tracker_inv s =
     (distinct (map fst (trackedFaces s))
      \<and> (\<forall>k\<in>set (map fst (trackedFaces s)). 1 \<le> k \<and> k < nextFaceId s)
      \<and> 1 \<le> nextFaceId s)"

text \<open>
  The detection indices that the tracks of \<open>pre\<close>, the part of the table before a
  track, have consumed when the loop reaches that track.
\<close>

definition consumedBefore :: "TrackTable \<Rightarrow> FaceResult list \<Rightarrow> nat set" where
  "consumedBefore pre newDetections = snd (matchTracks pre newDetections ([], {}))"

text \<open>
  The attendance record that line 252 appends for a face.
\<close>

definition attendanceEvent :: "int \<Rightarrow> FaceResult \<Rightarrow> AttendanceRecord" where
  "attendanceEvent currentTime face =
     \<lparr>att_persistentId = the (persistentId face), timestamp = currentTime,
      att_emotion = emotion face\<rparr>"

text \<open>
  The two conditions of lines 246 and 251 for a face whose identifier is truthy.
\<close>

definition shouldLog :: "(nat \<rightharpoonup> StudentInfo) \<Rightarrow> (nat \<rightharpoonup> int) \<Rightarrow> int \<Rightarrow> FaceResult \<Rightarrow> bool" where
  "shouldLog enrolled reg currentTime face =
     (enrolled (the (persistentId face)) \<noteq> None
      \<and> logDue (reg (the (persistentId face))) currentTime)"

text \<open>
  Every timestamp in the Last-Logged Registry is a reading of \<open>Date.now()\<close> other than
  \<open>0\<close>, the one number that \<open>!lastLog\<close> treats as a missing entry.
\<close>

definition registry_ok :: "(nat \<rightharpoonup> int) \<Rightarrow> bool" where
  "registry_ok reg = (\<forall>pid t. reg pid = Some t \<longrightarrow> t \<noteq> 0)"

subsection \<open>Concrete inputs\<close>

definition mkBox :: "real \<Rightarrow> real \<Rightarrow> real \<Rightarrow> real \<Rightarrow> BoundingBox" where
  "mkBox a b w h = \<lparr>box_x = a, box_y = b, width = w, height = h\<rparr>"

definition mkFace :: "string \<Rightarrow> BoundingBox \<Rightarrow> FaceResult" where
  "mkFace p b = \<lparr>personId = p, emotion = Neutral, confidence = 1, boundingBox = b,
                 persistentId = None, studentInfo = None\<rparr>"

text \<open>The state of the component before the first start, from its initial values.\<close>

definition initialApp :: AppState where
  "initialApp =
     \<lparr>trackedFaces = [], nextFaceId = 1, stream = False,
      detectionResult = \<lparr>faces = [], hands = []\<rparr>, appError = None, isApiError = False,
      videoDimensions = (0, 0), isPausedForRateLimit = False, students = Map.empty,
      attendance = [], lastAttendanceLog = Map.empty, isProcessing = False,
      cooldownTimers = 0\<rparr>"

definition readyEnv :: FrameEnv where
  "readyEnv = \<lparr>refsPresent = True, videoWidth = 1280, videoHeight = 720, contextPresent = True\<rparr>"

text \<open>A session that has seen one face in one cycle.\<close>

definition oneFaceApp :: AppState where
  "oneFaceApp =
     captureAndAnalyze readyEnv
       (Detected \<lparr>faces = [mkFace ''person_1'' (mkBox 0 0 10 10)], hands = []\<rparr>) 1000
       (handleStartCamera Granted initialApp)"

text \<open>
  Two tracks, and detections that score exactly \<open>0.4\<close> against the first and
  \<open>0.40001\<close> against the second.
\<close>

definition boundaryTracks :: TrackerState where
  "boundaryTracks =
     \<lparr>trackedFaces =
        [(1, \<lparr>trackBox = mkBox 0 0 7 1, lastSeen = 1000, geminiId = ''person_1''\<rparr>),
         (2, \<lparr>trackBox = mkBox 0 0 70000 1, lastSeen = 1000, geminiId = ''person_2''\<rparr>)],
      nextFaceId = 3\<rparr>"

definition boundaryDetections :: "FaceResult list" where
  "boundaryDetections =
     [mkFace ''person_1'' (mkBox 3 0 7 1), mkFace ''person_2'' (mkBox 29999 0 70001 1)]"

text \<open>
  Detections that each cover one of the two tracks.
\<close>

definition fullOverlapDetections :: "FaceResult list" where
  "fullOverlapDetections =
     [mkFace ''person_1'' (mkBox 0 0 70000 1), mkFace ''person_2'' (mkBox 0 0 7 1)]"

text \<open>
  Two cycles after which the younger track stands before the older one in the table, and
  a third cycle whose first detection overlaps both.
\<close>

definition youngFirstCycles :: "(FaceResult list \<times> int) list" where
  "youngFirstCycles =
     [([mkFace ''person_1'' (mkBox 0 0 10 1)], 1000),
      ([mkFace ''person_1'' (mkBox 6 0 10 1)], 11000)]"

definition youngFirst :: TrackerState where
  "youngFirst = runCycles sessionStart youngFirstCycles"

definition thirdCycle :: "FaceResult list" where
  "thirdCycle = [mkFace ''person_1'' (mkBox 3 0 10 1), mkFace ''person_2'' (mkBox 50 50 10 10)]"

definition enrolledStudents :: "nat \<rightharpoonup> StudentInfo" where
  "enrolledStudents =
     [2 \<mapsto> \<lparr>studentName = ''A'', rollNumber = ''R1''\<rparr>,
      3 \<mapsto> \<lparr>studentName = ''B'', rollNumber = ''R2''\<rparr>]"

section \<open>The overlap score\<close>

lemma intersectionArea_nonneg: "0 \<le> intersectionArea a b"
  by (simp add: intersectionArea_def)

lemma intersectionArea_neg_side:
  "width a < 0 \<or> width b < 0 \<or> height a < 0 \<or> height b < 0 \<Longrightarrow> intersectionArea a b = 0"
  by (auto simp: intersectionArea_def max_def min_def)

lemma intersectionArea_le:
  assumes "0 < width a" "0 < height a" "0 < width b" "0 < height b"
  shows "intersectionArea a b \<le> area b"
proof -
  have w: "max 0 (min (box_x a + width a) (box_x b + width b) - max (box_x a) (box_x b)) \<le> width b"
    using assms by (auto simp: max_def min_def)
  have h: "max 0 (min (box_y a + height a) (box_y b + height b) - max (box_y a) (box_y b)) \<le> height b"
    using assms by (auto simp: max_def min_def)
  show ?thesis unfolding intersectionArea_def area_def
    by (rule mult_mono[OF w h]) (use assms in auto)
qed

lemma pos_area_cases:
  "0 < area a \<Longrightarrow> (0 < width a \<and> 0 < height a) \<or> (width a < 0 \<and> height a < 0)"
  by (auto simp: area_def zero_less_mult_iff)

text \<open>Past the guard of line 23 the divisor of line 26 is positive.\<close>

lemma unionArea_pos:
  assumes "0 < area a" "0 < area b"
  shows "0 < area a + area b - intersectionArea a b"
proof (cases "0 < width a \<and> 0 < height a \<and> 0 < width b \<and> 0 < height b")
  case True
  then have "intersectionArea a b \<le> area b" by (simp add: intersectionArea_le)
  with assms show ?thesis by simp
next
  case False
  with pos_area_cases[OF assms(1)] pos_area_cases[OF assms(2)]
  have "intersectionArea a b = 0" by (intro intersectionArea_neg_side) auto
  with assms show ?thesis by simp
qed

lemma calculateIoU_Num: "calculateIoU a b = Num (iou a b)"
proof (cases "area a \<le> 0 \<or> area b \<le> 0")
  case True
  then show ?thesis by (auto simp: calculateIoU_def iou_def area_def Let_def)
next
  case False
  then have "0 < area a + area b - intersectionArea a b"
    by (intro unionArea_pos) auto
  then have "js_div (intersectionArea a b) (area a + area b - intersectionArea a b)
             = Num (intersectionArea a b / (area a + area b - intersectionArea a b))"
    by (simp add: js_div_def)
  with False show ?thesis
    by (simp add: calculateIoU_def iou_def area_def intersectionArea_def Let_def)
qed

lemma iou_nonneg: "0 \<le> iou a b"
proof (cases "area a \<le> 0 \<or> area b \<le> 0")
  case True then show ?thesis by (simp add: iou_def)
next
  case False
  then have "0 < area a + area b - intersectionArea a b" by (intro unionArea_pos) auto
  with False show ?thesis by (simp add: iou_def intersectionArea_nonneg)
qed

lemma score_nonneg: "0 \<le> score box d"
  by (simp add: score_def iou_nonneg)

lemma js_gt_score:
  "js_gt (calculateIoU box (boundingBox d)) (Num t) = (t < score box d)"
  "js_gt (calculateIoU box (boundingBox d)) (calculateIoU box (boundingBox d')) = (score box d' < score box d)"
  "(calculateIoU box (boundingBox d) = Num t) = (score box d = t)"
  by (simp_all add: calculateIoU_Num score_def)

section \<open>The matching loop\<close>

lemma scan_Cons:
  "scanDetections box used (d # ds) index (b, Num r) =
     (if index \<notin> used \<and> r < score box d \<and> IOU_THRESHOLD < score box d
      then scanDetections box used ds (Suc index) (Some index, Num (score box d))
      else scanDetections box used ds (Suc index) (b, Num r))"
  by (simp add: calculateIoU_Num score_def Let_def)

lemma scan_result:
  "scanDetections box used ds index (b, Num r) = (b', v') \<Longrightarrow>
     \<exists>r'. v' = Num r' \<and> r \<le> r' \<and>
       (\<forall>j<length ds. index + j \<notin> used \<longrightarrow> IOU_THRESHOLD < score box (ds ! j)
            \<longrightarrow> score box (ds ! j) \<le> r') \<and>
       ((b' = b \<and> r' = r) \<or>
        (\<exists>j<length ds. b' = Some (index + j) \<and> index + j \<notin> used \<and> r' = score box (ds ! j)
            \<and> IOU_THRESHOLD < r' \<and> r < r'
            \<and> (\<forall>k<j. index + k \<notin> used \<longrightarrow> score box (ds ! k) < r')))"
proof (induction ds arbitrary: index b r)
  case Nil
  then show ?case by simp
next
  case (Cons d ds)
  show ?case
  proof (cases "index \<notin> used \<and> r < score box d \<and> IOU_THRESHOLD < score box d")
    case True
    with Cons.prems have "scanDetections box used ds (Suc index) (Some index, Num (score box d)) = (b', v')"
      by (simp add: scan_Cons del: scanDetections.simps)
    from Cons.IH[OF this] obtain r' where
      v: "v' = Num r'" and ge: "score box d \<le> r'" and
      top: "\<forall>j<length ds. Suc index + j \<notin> used \<longrightarrow> IOU_THRESHOLD < score box (ds ! j)
            \<longrightarrow> score box (ds ! j) \<le> r'" and
      alt: "(b' = Some index \<and> r' = score box d) \<or>
        (\<exists>j<length ds. b' = Some (Suc index + j) \<and> Suc index + j \<notin> used \<and> r' = score box (ds ! j)
            \<and> IOU_THRESHOLD < r' \<and> score box d < r'
            \<and> (\<forall>k<j. Suc index + k \<notin> used \<longrightarrow> score box (ds ! k) < r'))"
      by blast
    have top': "\<forall>j<length (d # ds). index + j \<notin> used \<longrightarrow> IOU_THRESHOLD < score box ((d # ds) ! j)
            \<longrightarrow> score box ((d # ds) ! j) \<le> r'"
    proof (intro allI impI)
      fix j assume "j < length (d # ds)" "index + j \<notin> used" "IOU_THRESHOLD < score box ((d # ds) ! j)"
      then show "score box ((d # ds) ! j) \<le> r'"
        using ge top by (cases j) auto
    qed
    from alt have "\<exists>j<length (d # ds). b' = Some (index + j) \<and> index + j \<notin> used
            \<and> r' = score box ((d # ds) ! j)
            \<and> IOU_THRESHOLD < r' \<and> r < r'
            \<and> (\<forall>k<j. index + k \<notin> used \<longrightarrow> score box ((d # ds) ! k) < r')"
    proof
      assume "b' = Some index \<and> r' = score box d"
      with True show ?thesis by (intro exI[of _ 0]) simp
    next
      assume "\<exists>j<length ds. b' = Some (Suc index + j) \<and> Suc index + j \<notin> used \<and> r' = score box (ds ! j)
            \<and> IOU_THRESHOLD < r' \<and> score box d < r'
            \<and> (\<forall>k<j. Suc index + k \<notin> used \<longrightarrow> score box (ds ! k) < r')"
      then obtain j where j: "j < length ds" "b' = Some (Suc index + j)" "Suc index + j \<notin> used"
        "r' = score box (ds ! j)" "IOU_THRESHOLD < r'" "score box d < r'"
        "\<forall>k<j. Suc index + k \<notin> used \<longrightarrow> score box (ds ! k) < r'" by blast
      have "\<forall>k<Suc j. index + k \<notin> used \<longrightarrow> score box ((d # ds) ! k) < r'"
      proof (intro allI impI)
        fix k assume "k < Suc j" "index + k \<notin> used"
        then show "score box ((d # ds) ! k) < r'" using j(6,7) by (cases k) auto
      qed
      with j True show ?thesis by (intro exI[of _ "Suc j"]) simp
    qed
    with v ge top' True show ?thesis by (intro exI[of _ r']) simp
  next
    case False
    with Cons.prems have "scanDetections box used ds (Suc index) (b, Num r) = (b', v')"
      by (simp add: scan_Cons del: scanDetections.simps)
    from Cons.IH[OF this] obtain r' where
      v: "v' = Num r'" and ge: "r \<le> r'" and
      top: "\<forall>j<length ds. Suc index + j \<notin> used \<longrightarrow> IOU_THRESHOLD < score box (ds ! j)
            \<longrightarrow> score box (ds ! j) \<le> r'" and
      alt: "(b' = b \<and> r' = r) \<or>
        (\<exists>j<length ds. b' = Some (Suc index + j) \<and> Suc index + j \<notin> used \<and> r' = score box (ds ! j)
            \<and> IOU_THRESHOLD < r' \<and> r < r'
            \<and> (\<forall>k<j. Suc index + k \<notin> used \<longrightarrow> score box (ds ! k) < r'))"
      by blast
    have top': "\<forall>j<length (d # ds). index + j \<notin> used \<longrightarrow> IOU_THRESHOLD < score box ((d # ds) ! j)
            \<longrightarrow> score box ((d # ds) ! j) \<le> r'"
    proof (intro allI impI)
      fix j assume "j < length (d # ds)" "index + j \<notin> used" "IOU_THRESHOLD < score box ((d # ds) ! j)"
      then show "score box ((d # ds) ! j) \<le> r'"
        using ge top False by (cases j) auto
    qed
    from alt have "(b' = b \<and> r' = r) \<or> (\<exists>j<length (d # ds). b' = Some (index + j) \<and> index + j \<notin> used
            \<and> r' = score box ((d # ds) ! j)
            \<and> IOU_THRESHOLD < r' \<and> r < r'
            \<and> (\<forall>k<j. index + k \<notin> used \<longrightarrow> score box ((d # ds) ! k) < r'))"
    proof
      assume "b' = b \<and> r' = r"
      then show ?thesis by simp
    next
      assume "\<exists>j<length ds. b' = Some (Suc index + j) \<and> Suc index + j \<notin> used \<and> r' = score box (ds ! j)
            \<and> IOU_THRESHOLD < r' \<and> r < r'
            \<and> (\<forall>k<j. Suc index + k \<notin> used \<longrightarrow> score box (ds ! k) < r')"
      then obtain j where j: "j < length ds" "b' = Some (Suc index + j)" "Suc index + j \<notin> used"
        "r' = score box (ds ! j)" "IOU_THRESHOLD < r'" "r < r'"
        "\<forall>k<j. Suc index + k \<notin> used \<longrightarrow> score box (ds ! k) < r'" by blast
      have "\<forall>k<Suc j. index + k \<notin> used \<longrightarrow> score box ((d # ds) ! k) < r'"
      proof (intro allI impI)
        fix k assume "k < Suc j" "index + k \<notin> used"
        then show "score box ((d # ds) ! k) < r'" using j(5,6,7) False by (cases k) auto
      qed
      with j have "\<exists>j<length (d # ds). b' = Some (index + j) \<and> index + j \<notin> used
            \<and> r' = score box ((d # ds) ! j)
            \<and> IOU_THRESHOLD < r' \<and> r < r'
            \<and> (\<forall>k<j. index + k \<notin> used \<longrightarrow> score box ((d # ds) ! k) < r')"
        by (intro exI[of _ "Suc j"]) simp
      then show ?thesis ..
    qed
    with v ge top' show ?thesis by (intro exI[of _ r']) simp
  qed
qed

lemma findBestMatch_None:
  assumes "findBestMatch box used ds = None"
  shows "\<forall>j<length ds. j \<notin> used \<longrightarrow> score box (ds ! j) \<le> IOU_THRESHOLD"
proof -
  obtain b' v' where sc: "scanDetections box used ds 0 (None, Num 0) = (b', v')" by (cases "scanDetections box used ds 0 (None, Num 0)")
  with assms have b': "b' = None" by (simp add: findBestMatch_def)
  from scan_result[OF sc] b' obtain r' where
    "r' = 0" and "\<forall>j<length ds. j \<notin> used \<longrightarrow> IOU_THRESHOLD < score box (ds ! j) \<longrightarrow> score box (ds ! j) \<le> r'"
    by auto
  then show ?thesis by (auto simp: IOU_THRESHOLD_def not_le[symmetric])
qed

lemma findBestMatch_Some:
  assumes "findBestMatch box used ds = Some i"
  shows "i < length ds \<and> i \<notin> used \<and> IOU_THRESHOLD < score box (ds ! i)
         \<and> (\<forall>j<length ds. j \<notin> used \<longrightarrow> score box (ds ! j) \<le> score box (ds ! i))
         \<and> (\<forall>j<i. j \<notin> used \<longrightarrow> score box (ds ! j) < score box (ds ! i))"
proof -
  obtain b' v' where sc: "scanDetections box used ds 0 (None, Num 0) = (b', v')" by (cases "scanDetections box used ds 0 (None, Num 0)")
  with assms have b': "b' = Some i" by (simp add: findBestMatch_def)
  from scan_result[OF sc] b' obtain r' where
    top: "\<forall>j<length ds. j \<notin> used \<longrightarrow> IOU_THRESHOLD < score box (ds ! j) \<longrightarrow> score box (ds ! j) \<le> r'"
    and i: "i < length ds" "i \<notin> used" "r' = score box (ds ! i)" "IOU_THRESHOLD < r'"
       "\<forall>k<i. k \<notin> used \<longrightarrow> score box (ds ! k) < r'"
    by auto
  have "\<forall>j<length ds. j \<notin> used \<longrightarrow> score box (ds ! j) \<le> score box (ds ! i)"
  proof (intro allI impI)
    fix j assume "j < length ds" "j \<notin> used"
    with top i(3,4) show "score box (ds ! j) \<le> score box (ds ! i)"
      by (cases "IOU_THRESHOLD < score box (ds ! j)") auto
  qed
  with i show ?thesis by simp
qed

lemma matchTracks_append:
  "matchTracks (xs @ ys) ds acc = matchTracks ys ds (matchTracks xs ds acc)"
proof (induction xs arbitrary: acc)
  case Nil
  then show ?case by simp
next
  case (Cons x xs)
  obtain tid td where x: "x = (tid, td)" by (cases x)
  obtain pairs used where acc: "acc = (pairs, used)" by (cases acc)
  show ?case using Cons.IH by (simp add: x acc split: option.split)
qed

lemma matchTracks_single:
  "matchTracks [(tid, td)] ds (pairs, used) =
     (case findBestMatch (trackBox td) used ds of
        None \<Rightarrow> (pairs, used)
      | Some i \<Rightarrow> (pairs @ [\<lparr>trackId = tid, detection = ds ! i, detectionIndex = i\<rparr>], insert i used))"
  by (simp split: option.split)

lemma matchTracks_acc:
  "matchTracks ts ds (pairs0, used0) = (pairs, used) \<Longrightarrow>
     \<exists>new. pairs = pairs0 @ new
        \<and> used = used0 \<union> detectionIndex ` set new
        \<and> distinct (map detectionIndex new)
        \<and> detectionIndex ` set new \<inter> used0 = {}
        \<and> (\<forall>p\<in>set new. detectionIndex p < length ds \<and> detection p = ds ! detectionIndex p)
        \<and> set (map trackId new) \<subseteq> set (map fst ts)
        \<and> (distinct (map fst ts) \<longrightarrow> distinct (map trackId new))"
proof (induction ts arbitrary: pairs0 used0)
  case Nil
  then show ?case by simp
next
  case (Cons x ts)
  obtain tid td where x: "x = (tid, td)" by (cases x)
  show ?case
  proof (cases "findBestMatch (trackBox td) used0 ds")
    case None
    with Cons.prems have "matchTracks ts ds (pairs0, used0) = (pairs, used)" by (simp add: x)
    from Cons.IH[OF this] obtain new where
      "pairs = pairs0 @ new"
      "used = used0 \<union> detectionIndex ` set new"
      "distinct (map detectionIndex new)"
      "detectionIndex ` set new \<inter> used0 = {}"
      "\<forall>p\<in>set new. detectionIndex p < length ds \<and> detection p = ds ! detectionIndex p"
      "set (map trackId new) \<subseteq> set (map fst ts)"
      "distinct (map fst ts) \<longrightarrow> distinct (map trackId new)"
      by blast
    then show ?thesis by (intro exI[of _ new]) (auto simp: x)
  next
    case (Some i)
    let ?p = "\<lparr>trackId = tid, detection = ds ! i, detectionIndex = i\<rparr>"
    from Some Cons.prems have "matchTracks ts ds (pairs0 @ [?p], insert i used0) = (pairs, used)"
      by (simp add: x)
    from Cons.IH[OF this] obtain new where new:
      "pairs = (pairs0 @ [?p]) @ new"
      "used = insert i used0 \<union> detectionIndex ` set new"
      "distinct (map detectionIndex new)"
      "detectionIndex ` set new \<inter> insert i used0 = {}"
      "\<forall>p\<in>set new. detectionIndex p < length ds \<and> detection p = ds ! detectionIndex p"
      "set (map trackId new) \<subseteq> set (map fst ts)"
      "distinct (map fst ts) \<longrightarrow> distinct (map trackId new)"
      by blast
    from findBestMatch_Some[OF Some] have i: "i < length ds" "i \<notin> used0" by auto
    show ?thesis
    proof (intro exI[of _ "?p # new"] conjI)
      show "pairs = pairs0 @ ?p # new" using new(1) by simp
      show "used = used0 \<union> detectionIndex ` set (?p # new)" using new(2) by auto
      show "distinct (map detectionIndex (?p # new))" using new(3,4) by auto
      show "detectionIndex ` set (?p # new) \<inter> used0 = {}" using new(4) i by auto
      show "\<forall>p\<in>set (?p # new). detectionIndex p < length ds \<and> detection p = ds ! detectionIndex p"
        using new(5) i by auto
      show "set (map trackId (?p # new)) \<subseteq> set (map fst (x # ts))" using new(6) by (auto simp: x)
      show "distinct (map fst (x # ts)) \<longrightarrow> distinct (map trackId (?p # new))"
        using new(6,7) by (auto simp: x)
    qed
  qed
qed

lemma matchTracks_order:
  "distinct (map fst ts) \<Longrightarrow> matchTracks ts ds (pairs0, used0) = (pairs, used) \<Longrightarrow>
     \<exists>new. pairs = pairs0 @ new
        \<and> map trackId new = filter (\<lambda>k. k \<in> trackId ` set new) (map fst ts)"
proof (induction ts arbitrary: pairs0 used0)
  case Nil
  then show ?case by simp
next
  case (Cons x ts)
  obtain tid td where x: "x = (tid, td)" by (cases x)
  from Cons.prems(1) have d: "distinct (map fst ts)" and notin: "tid \<notin> set (map fst ts)"
    by (simp_all add: x)
  show ?case
  proof (cases "findBestMatch (trackBox td) used0 ds")
    case None
    with Cons.prems have r: "matchTracks ts ds (pairs0, used0) = (pairs, used)" by (simp add: x)
    from Cons.IH[OF d r] obtain new where
      new: "pairs = pairs0 @ new" "map trackId new = filter (\<lambda>k. k \<in> trackId ` set new) (map fst ts)"
      by blast
    from matchTracks_acc[OF r] new(1) have "set (map trackId new) \<subseteq> set (map fst ts)" by auto
    with notin have "tid \<notin> trackId ` set new" by auto
    with new show ?thesis by (intro exI[of _ new]) (simp add: x)
  next
    case (Some i)
    let ?p = "\<lparr>trackId = tid, detection = ds ! i, detectionIndex = i\<rparr>"
    from Some Cons.prems have r: "matchTracks ts ds (pairs0 @ [?p], insert i used0) = (pairs, used)"
      by (simp add: x)
    from Cons.IH[OF d r] obtain new where
      new: "pairs = (pairs0 @ [?p]) @ new"
           "map trackId new = filter (\<lambda>k. k \<in> trackId ` set new) (map fst ts)"
      by blast
    have same: "filter (\<lambda>k. k \<in> trackId ` set (?p # new)) (map fst ts)
                 = filter (\<lambda>k. k \<in> trackId ` set new) (map fst ts)"
      using notin by (intro filter_cong) auto
    show ?thesis
    proof (intro exI[of _ "?p # new"] conjI)
      show "pairs = pairs0 @ ?p # new" using new(1) by simp
      show "map trackId (?p # new) = filter (\<lambda>k. k \<in> trackId ` set (?p # new)) (map fst (x # ts))"
        using new(2) same by (simp add: x)
    qed
  qed
qed

lemma matchedPairs_facts:
  assumes "distinct (map fst (trackedFaces s))"
  shows "usedIndicesOf s ds = detectionIndex ` set (matchedPairsOf s ds)"
    and "distinct (map detectionIndex (matchedPairsOf s ds))"
    and "distinct (map trackId (matchedPairsOf s ds))"
    and "set (map trackId (matchedPairsOf s ds)) \<subseteq> set (map fst (trackedFaces s))"
    and "\<forall>p\<in>set (matchedPairsOf s ds). detectionIndex p < length ds \<and> detection p = ds ! detectionIndex p"
proof -
  have mt: "matchTracks (trackedFaces s) ds ([], {}) = (matchedPairsOf s ds, usedIndicesOf s ds)"
    by (simp add: matchedPairsOf_def usedIndicesOf_def)
  from matchTracks_acc[OF mt] assms
  show "usedIndicesOf s ds = detectionIndex ` set (matchedPairsOf s ds)"
    and "distinct (map detectionIndex (matchedPairsOf s ds))"
    and "distinct (map trackId (matchedPairsOf s ds))"
    and "set (map trackId (matchedPairsOf s ds)) \<subseteq> set (map fst (trackedFaces s))"
    and "\<forall>p\<in>set (matchedPairsOf s ds). detectionIndex p < length ds \<and> detection p = ds ! detectionIndex p"
    by auto
qed

text \<open>The pair recorded for the track at a given place of the table.\<close>

lemma matchedPairs_at:
  assumes tbl: "trackedFaces s = pre @ (tid, td) # post"
      and dist: "distinct (map fst (trackedFaces s))"
  shows "\<forall>p\<in>set (matchedPairsOf s ds). trackId p = tid \<longrightarrow>
            findBestMatch (trackBox td) (consumedBefore pre ds) ds = Some (detectionIndex p)"
    and "findBestMatch (trackBox td) (consumedBefore pre ds) ds = Some i \<Longrightarrow>
            \<lparr>trackId = tid, detection = ds ! i, detectionIndex = i\<rparr> \<in> set (matchedPairsOf s ds)"
proof -
  obtain pairs0 used0 where pre: "matchTracks pre ds ([], {}) = (pairs0, used0)"
    by (cases "matchTracks pre ds ([], {})")
  have used0: "consumedBefore pre ds = used0" by (simp add: consumedBefore_def pre)
  from matchTracks_acc[OF pre] have sub0: "set (map trackId pairs0) \<subseteq> set (map fst pre)" by auto
  obtain pairs1 used1 where one: "matchTracks [(tid, td)] ds (pairs0, used0) = (pairs1, used1)"
    by (cases "matchTracks [(tid, td)] ds (pairs0, used0)")
  obtain pairs2 used2 where post: "matchTracks post ds (pairs1, used1) = (pairs2, used2)"
    by (cases "matchTracks post ds (pairs1, used1)")
  from matchTracks_acc[OF post] obtain new where
    new: "pairs2 = pairs1 @ new" "set (map trackId new) \<subseteq> set (map fst post)" by auto
  have "matchTracks (trackedFaces s) ds ([], {}) = (pairs2, used2)"
    using pre one post matchTracks_append[of pre "(tid, td) # post" ds "([], {})"]
          matchTracks_append[of "[(tid, td)]" post ds "(pairs0, used0)"]
    by (simp add: tbl)
  then have all: "matchedPairsOf s ds = pairs1 @ new" by (simp add: matchedPairsOf_def new)
  have notpre: "tid \<notin> set (map fst pre)" and notpost: "tid \<notin> set (map fst post)"
    using dist by (simp_all add: tbl)
  have n0: "\<And>p. p \<in> set pairs0 \<Longrightarrow> trackId p \<noteq> tid" using sub0 notpre by auto
  have n2: "\<And>p. p \<in> set new \<Longrightarrow> trackId p \<noteq> tid" using new(2) notpost by auto
  show "\<forall>p\<in>set (matchedPairsOf s ds). trackId p = tid \<longrightarrow>
            findBestMatch (trackBox td) (consumedBefore pre ds) ds = Some (detectionIndex p)"
  proof (intro ballI impI)
    fix p assume p: "p \<in> set (matchedPairsOf s ds)" "trackId p = tid"
    with all n2 have p1: "p \<in> set pairs1" by auto
    show "findBestMatch (trackBox td) (consumedBefore pre ds) ds = Some (detectionIndex p)"
    proof (cases "findBestMatch (trackBox td) used0 ds")
      case None
      with one have "pairs1 = pairs0" by (simp add: matchTracks_single del: matchTracks.simps)
      with p1 n0 p(2) show ?thesis by auto
    next
      case (Some i)
      with one have "pairs1 = pairs0 @ [\<lparr>trackId = tid, detection = ds ! i, detectionIndex = i\<rparr>]"
        by (simp add: matchTracks_single del: matchTracks.simps)
      with p1 n0 p(2) have "p = \<lparr>trackId = tid, detection = ds ! i, detectionIndex = i\<rparr>" by auto
      then show ?thesis using Some used0 by simp
    qed
  qed
  show "\<lparr>trackId = tid, detection = ds ! i, detectionIndex = i\<rparr> \<in> set (matchedPairsOf s ds)"
    if "findBestMatch (trackBox td) (consumedBefore pre ds) ds = Some i"
  proof -
    from that one used0 have "pairs1 = pairs0 @ [\<lparr>trackId = tid, detection = ds ! i, detectionIndex = i\<rparr>]"
      by (simp add: matchTracks_single del: matchTracks.simps)
    then show ?thesis by (simp add: all)
  qed
qed

text \<open>The definitions that evaluate a cycle on concrete inputs.\<close>

lemmas eval_defs =
  reconcile_def matchedPairsOf_def usedIndicesOf_def createdIds_def findBestMatch_def
  calculateIoU_def js_div_def Let_def IOU_THRESHOLD_def MAX_INACTIVITY_MS_def map_has_def
  mkBox_def mkFace_def sessionStart_def consumedBefore_def youngFirstCycles_def

lemma boundary_pairs:
  "matchedPairsOf boundaryTracks boundaryDetections
     = [\<lparr>trackId = 2, detection = mkFace ''person_2'' (mkBox 29999 0 70001 1), detectionIndex = 1\<rparr>]"
  by (simp add: boundaryTracks_def boundaryDetections_def eval_defs)

text \<open>
  Claim C1. In one reconcile cycle, for each track of the table the matching loop selects,
  among the detections that the tracks before it have not consumed, one with the highest
  overlap score against the track's region, and records a pair only when that score is
  strictly above 0.4. A pair recorded for the track has a detection that was not
  consumed, that scores above the threshold and that no unconsumed detection outscores;
  a track for which some unconsumed detection scores above the threshold gets a pair; no
  pair has a score of exactly 0.4; and when an unconsumed detection scores 0.40001 and no
  unconsumed detection scores higher, the track gets a pair with that score.
\<close>

theorem track_selects_best_unconsumed:
  assumes "trackedFaces s = pre @ (tid, td) # post"
      and "distinct (map fst (trackedFaces s))"
  shows "(\<forall>p\<in>set (matchedPairsOf s ds). trackId p = tid \<longrightarrow>
            detectionIndex p < length ds \<and> detectionIndex p \<notin> consumedBefore pre ds
          \<and> js_gt (calculateIoU (trackBox td) (boundingBox (ds ! detectionIndex p))) (Num IOU_THRESHOLD)
          \<and> (\<forall>j<length ds. j \<notin> consumedBefore pre ds \<longrightarrow>
               \<not> js_gt (calculateIoU (trackBox td) (boundingBox (ds ! j)))
                       (calculateIoU (trackBox td) (boundingBox (ds ! detectionIndex p)))))
       \<and> ((\<exists>j<length ds. j \<notin> consumedBefore pre ds
              \<and> js_gt (calculateIoU (trackBox td) (boundingBox (ds ! j))) (Num IOU_THRESHOLD))
            \<longrightarrow> tid \<in> trackId ` set (matchedPairsOf s ds))
       \<and> (\<forall>p\<in>set (matchedPairsOf s ds). trackId p = tid \<longrightarrow>
            calculateIoU (trackBox td) (boundingBox (ds ! detectionIndex p)) \<noteq> Num (4 / 10))
       \<and> (\<forall>j<length ds. j \<notin> consumedBefore pre ds
              \<and> calculateIoU (trackBox td) (boundingBox (ds ! j)) = Num (40001 / 100000)
              \<and> (\<forall>k<length ds. k \<notin> consumedBefore pre ds \<longrightarrow>
                    \<not> js_gt (calculateIoU (trackBox td) (boundingBox (ds ! k))) (Num (40001 / 100000)))
            \<longrightarrow> (\<exists>p\<in>set (matchedPairsOf s ds). trackId p = tid
                   \<and> calculateIoU (trackBox td) (boundingBox (ds ! detectionIndex p))
                       = Num (40001 / 100000)))"
proof -
  let ?used = "consumedBefore pre ds"
  let ?sc = "\<lambda>j. score (trackBox td) (ds ! j)"
  note at = matchedPairs_at[OF assms, of ds]
  have A: "detectionIndex p < length ds \<and> detectionIndex p \<notin> ?used
          \<and> IOU_THRESHOLD < ?sc (detectionIndex p)
          \<and> (\<forall>j<length ds. j \<notin> ?used \<longrightarrow> \<not> ?sc (detectionIndex p) < ?sc j)"
    if "p \<in> set (matchedPairsOf s ds)" "trackId p = tid" for p
  proof -
    from at(1) that have "findBestMatch (trackBox td) ?used ds = Some (detectionIndex p)" by blast
    from findBestMatch_Some[OF this] show ?thesis by (simp add: not_less)
  qed
  have B: "tid \<in> trackId ` set (matchedPairsOf s ds)"
    if "j < length ds" "j \<notin> ?used" "IOU_THRESHOLD < ?sc j" for j
  proof (cases "findBestMatch (trackBox td) ?used ds")
    case None
    from findBestMatch_None[OF None] that show ?thesis by auto
  next
    case (Some i)
    from at(2)[OF Some] show ?thesis by force
  qed
  have C: "?sc (detectionIndex p) \<noteq> 4 / 10"
    if "p \<in> set (matchedPairsOf s ds)" "trackId p = tid" for p
    using A[OF that] by (simp add: IOU_THRESHOLD_def)
  have D: "\<exists>p\<in>set (matchedPairsOf s ds). trackId p = tid \<and> ?sc (detectionIndex p) = 40001 / 100000"
    if j: "j < length ds" "j \<notin> ?used" "?sc j = 40001 / 100000"
       and top: "\<forall>k<length ds. k \<notin> ?used \<longrightarrow> \<not> 40001 / 100000 < ?sc k" for j
  proof (cases "findBestMatch (trackBox td) ?used ds")
    case None
    from findBestMatch_None[OF None] j show ?thesis by (auto simp: IOU_THRESHOLD_def)
  next
    case (Some i)
    from findBestMatch_Some[OF Some] j top have "?sc i = 40001 / 100000" by force
    with at(2)[OF Some] show ?thesis by force
  qed
  show ?thesis
    unfolding js_gt_score using A B C D by blast
qed

theorem track_selects_best_unconsumed_witness:
  "trackedFaces boundaryTracks
     = [] @ (1, \<lparr>trackBox = mkBox 0 0 7 1, lastSeen = 1000, geminiId = ''person_1''\<rparr>)
          # [(2, \<lparr>trackBox = mkBox 0 0 70000 1, lastSeen = 1000, geminiId = ''person_2''\<rparr>)]
   \<and> distinct (map fst (trackedFaces boundaryTracks))
   \<and> calculateIoU (mkBox 0 0 7 1) (boundingBox (boundaryDetections ! 0)) = Num (4 / 10)
   \<and> 1 \<notin> trackId ` set (matchedPairsOf boundaryTracks boundaryDetections)
   \<and> consumedBefore [(1, \<lparr>trackBox = mkBox 0 0 7 1, lastSeen = 1000, geminiId = ''person_1''\<rparr>)]
        boundaryDetections = {}
   \<and> calculateIoU (mkBox 0 0 70000 1) (boundingBox (boundaryDetections ! 1)) = Num (40001 / 100000)
   \<and> (\<exists>p\<in>set (matchedPairsOf boundaryTracks boundaryDetections).
         trackId p = 2 \<and> detectionIndex p = 1)"
  using track_selects_best_unconsumed
          [of boundaryTracks "[]" 1
              "\<lparr>trackBox = mkBox 0 0 7 1, lastSeen = 1000, geminiId = ''person_1''\<rparr>"
              "[(2, \<lparr>trackBox = mkBox 0 0 70000 1, lastSeen = 1000, geminiId = ''person_2''\<rparr>)]"
              boundaryDetections]
        boundary_pairs
  by (simp add: boundaryTracks_def boundaryDetections_def eval_defs)

text \<open>
  Claim C7. Within one reconcile call the recorded pairs are an injective partial
  assignment: no detection index is in more than one pair, and, the keys of the Track
  Table being distinct as those of a \<open>Map\<close> are, no track identifier is in more than one
  pair.
\<close>

theorem matching_is_injective:
  "distinct (map detectionIndex (matchedPairsOf s ds))
   \<and> (distinct (map fst (trackedFaces s)) \<longrightarrow> distinct (map trackId (matchedPairsOf s ds)))"
proof -
  have mt: "matchTracks (trackedFaces s) ds ([], {}) = (matchedPairsOf s ds, usedIndicesOf s ds)"
    by (simp add: matchedPairsOf_def usedIndicesOf_def)
  from matchTracks_acc[OF mt] show ?thesis by auto
qed

theorem matching_is_injective_witness:
  "distinct (map fst (trackedFaces boundaryTracks))
   \<and> map detectionIndex (matchedPairsOf boundaryTracks fullOverlapDetections) = [1, 0]
   \<and> map trackId (matchedPairsOf boundaryTracks fullOverlapDetections) = [1, 2]"
  using matching_is_injective[of boundaryTracks fullOverlapDetections]
  by (simp add: boundaryTracks_def fullOverlapDetections_def eval_defs)

section \<open>One reconcile cycle\<close>

lemma map_set_fresh: "k \<notin> set (map fst m) \<Longrightarrow> map_set k v m = m @ [(k, v)]"
  by (induction m) auto

lemma map_get_member:
  "distinct (map fst m) \<Longrightarrow> (k, v) \<in> set m \<Longrightarrow> map_get m k = Some v"
  by (simp add: map_get_def)

lemma applyMatches_length:
  "length (snd (applyMatches now ps (tbl, ds))) = length ds"
  by (induction ps arbitrary: tbl ds) auto

lemma applyMatches_table:
  "distinct (map trackId ps) \<Longrightarrow> set (map trackId ps) \<inter> set (map fst tbl) = {} \<Longrightarrow>
   fst (applyMatches now ps (tbl, ds))
     = tbl @ map (\<lambda>p. (trackId p, refreshed now (detection p))) ps"
proof (induction ps arbitrary: tbl ds)
  case Nil
  then show ?case by simp
next
  case (Cons p ps)
  have fresh: "trackId p \<notin> set (map fst tbl)" using Cons.prems(2) by auto
  have "set (map trackId ps) \<inter> set (map fst (tbl @ [(trackId p, refreshed now (detection p))])) = {}"
    using Cons.prems by auto
  with Cons.IH[of "tbl @ [(trackId p, refreshed now (detection p))]"] Cons.prems(1) fresh
  show ?case by (simp add: map_set_fresh refreshed_def)
qed

lemma applyMatches_other:
  "i \<notin> detectionIndex ` set ps \<Longrightarrow> snd (applyMatches now ps (tbl, ds)) ! i = ds ! i"
  by (induction ps arbitrary: tbl ds) auto

lemma applyMatches_stamped:
  "distinct (map detectionIndex ps) \<Longrightarrow> p \<in> set ps \<Longrightarrow> detectionIndex p < length ds \<Longrightarrow>
   snd (applyMatches now ps (tbl, ds)) ! detectionIndex p
     = (ds ! detectionIndex p)\<lparr>persistentId := Some (trackId p)\<rparr>"
proof (induction ps arbitrary: tbl ds)
  case Nil
  then show ?case by simp
next
  case (Cons q ps)
  show ?case
  proof (cases "p = q")
    case True
    with Cons.prems have "detectionIndex p \<notin> detectionIndex ` set ps" by auto
    then show ?thesis using True Cons.prems(3) by (simp add: applyMatches_other)
  next
    case False
    with Cons.prems have p: "p \<in> set ps" and ne: "detectionIndex p \<noteq> detectionIndex q"
      by (auto simp: image_iff)
    with Cons.IH[OF _ p] Cons.prems show ?thesis by simp
  qed
qed

lemma applyMatches_fields:
  "j < length ds \<Longrightarrow>
   boundingBox (snd (applyMatches now ps (tbl, ds)) ! j) = boundingBox (ds ! j)
   \<and> personId (snd (applyMatches now ps (tbl, ds)) ! j) = personId (ds ! j)"
proof (induction ps arbitrary: tbl ds)
  case Nil
  then show ?case by simp
next
  case (Cons p ps)
  let ?ds = "ds[detectionIndex p := (ds ! detectionIndex p)\<lparr>persistentId := Some (trackId p)\<rparr>]"
  have "j < length ?ds" using Cons.prems by simp
  have upd: "boundingBox (?ds ! j) = boundingBox (ds ! j) \<and> personId (?ds ! j) = personId (ds ! j)"
    using Cons.prems by (cases "j = detectionIndex p") simp_all
  from Cons.IH[OF \<open>j < length ?ds\<close>, of "map_set (trackId p) (refreshed now (detection p)) tbl"] upd
  show ?case by (simp add: refreshed_def)
qed

lemma newEntries_keys:
  "map fst (newEntries used now ds index nextId)
     = [nextId ..< nextId + length (newEntries used now ds index nextId)]"
proof (induction ds arbitrary: index nextId)
  case Nil
  then show ?case by simp
next
  case (Cons d ds)
  show ?case
  proof (cases "index \<in> used")
    case True
    then show ?thesis using Cons.IH[of "Suc index" nextId] by simp
  next
    case False
    have "map fst (newEntries used now (d # ds) index nextId)
            = nextId # map fst (newEntries used now ds (Suc index) (Suc nextId))"
      using False by simp
    also have "\<dots> = nextId # [Suc nextId ..< Suc nextId + length (newEntries used now ds (Suc index) (Suc nextId))]"
      using Cons.IH[of "Suc index" "Suc nextId"] by simp
    also have "\<dots> = [nextId ..< nextId + length (newEntries used now (d # ds) index nextId)]"
      using False by (simp add: upt_conv_Cons del: upt_Suc)
    finally show ?thesis .
  qed
qed

lemma newEntries_cong:
  "length ds1 = length ds \<Longrightarrow>
   \<forall>j<length ds. boundingBox (ds1 ! j) = boundingBox (ds ! j) \<and> personId (ds1 ! j) = personId (ds ! j) \<Longrightarrow>
   newEntries used now ds1 index nextId = newEntries used now ds index nextId"
proof (induction ds1 ds arbitrary: index nextId rule: list_induct2)
  case Nil
  then show ?case by simp
next
  case (Cons x xs y ys)
  have hd: "boundingBox x = boundingBox y \<and> personId x = personId y" using Cons.prems by auto
  have tl: "\<forall>j<length ys. boundingBox (xs ! j) = boundingBox (ys ! j) \<and> personId (xs ! j) = personId (ys ! j)"
    using Cons.prems by auto
  show ?case using Cons.IH[OF tl] hd by (simp add: refreshed_def)
qed

lemma createTracks_result:
  "\<forall>k\<in>set (map fst tbl). k < nextId \<Longrightarrow>
   createTracks used now ds index tbl nextId = (ds', tbl', nextId') \<Longrightarrow>
     tbl' = tbl @ newEntries used now ds index nextId
   \<and> nextId' = nextId + length (newEntries used now ds index nextId)
   \<and> length ds' = length ds
   \<and> (\<forall>j<length ds. index + j \<in> used \<longrightarrow> ds' ! j = ds ! j)
   \<and> (\<forall>j<length ds. index + j \<notin> used \<longrightarrow>
         (\<exists>n. nextId \<le> n \<and> n < nextId' \<and> ds' ! j = (ds ! j)\<lparr>persistentId := Some n\<rparr>))
   \<and> concat (map (\<lambda>j. if index + j \<in> used then [] else stampOf (ds' ! j)) [0..<length ds])
       = [nextId..<nextId']"
proof (induction ds arbitrary: index tbl nextId ds' tbl' nextId')
  case Nil
  then show ?case by simp
next
  case (Cons d ds)
  have upt: "[0..<length (d # ds)] = 0 # map Suc [0..<length ds]"
    by (simp add: upt_conv_Cons map_Suc_upt del: upt_Suc)
  show ?case
  proof (cases "index \<in> used")
    case True
    obtain r1 r2 r3 where r: "createTracks used now ds (Suc index) tbl nextId = (r1, r2, r3)"
      by (cases "createTracks used now ds (Suc index) tbl nextId")
    with True Cons.prems(2) have eqs: "ds' = d # r1" "tbl' = r2" "nextId' = r3" by auto
    note IH = Cons.IH[OF Cons.prems(1) r]
    have a: "\<forall>j<length (d # ds). index + j \<in> used \<longrightarrow> ds' ! j = (d # ds) ! j"
    proof (intro allI impI)
      fix j assume "j < length (d # ds)" "index + j \<in> used"
      then show "ds' ! j = (d # ds) ! j" using IH eqs by (cases j) auto
    qed
    have b: "\<forall>j<length (d # ds). index + j \<notin> used \<longrightarrow>
         (\<exists>n. nextId \<le> n \<and> n < nextId' \<and> ds' ! j = ((d # ds) ! j)\<lparr>persistentId := Some n\<rparr>)"
    proof (intro allI impI)
      fix j assume "j < length (d # ds)" "index + j \<notin> used"
      then show "\<exists>n. nextId \<le> n \<and> n < nextId' \<and> ds' ! j = ((d # ds) ! j)\<lparr>persistentId := Some n\<rparr>"
        using IH eqs True by (cases j) auto
    qed
    have c: "concat (map (\<lambda>j. if index + j \<in> used then [] else stampOf (ds' ! j)) [0..<length (d # ds)])
       = [nextId..<nextId']"
      using IH eqs True by (simp only: upt) (simp add: comp_def cong: if_cong)
    from IH eqs True a b c show ?thesis by simp
  next
    case False
    let ?tbl = "map_set nextId (refreshed now d) tbl"
    have fresh: "nextId \<notin> set (map fst tbl)" using Cons.prems(1) by auto
    then have tbl: "?tbl = tbl @ [(nextId, refreshed now d)]" by (rule map_set_fresh)
    have keys: "\<forall>k\<in>set (map fst ?tbl). k < Suc nextId" using Cons.prems(1) by (auto simp: tbl)
    obtain r1 r2 r3 where r: "createTracks used now ds (Suc index) ?tbl (Suc nextId) = (r1, r2, r3)"
      by (cases "createTracks used now ds (Suc index) ?tbl (Suc nextId)")
    with False Cons.prems(2) have eqs: "ds' = d\<lparr>persistentId := Some nextId\<rparr> # r1" "tbl' = r2" "nextId' = r3"
      by (auto simp: refreshed_def Let_def)
    note IH = Cons.IH[OF keys r]
    have lt: "nextId < nextId'" using IH eqs by simp
    have a: "\<forall>j<length (d # ds). index + j \<in> used \<longrightarrow> ds' ! j = (d # ds) ! j"
    proof (intro allI impI)
      fix j assume "j < length (d # ds)" "index + j \<in> used"
      then show "ds' ! j = (d # ds) ! j" using IH eqs False by (cases j) auto
    qed
    have b: "\<forall>j<length (d # ds). index + j \<notin> used \<longrightarrow>
         (\<exists>n. nextId \<le> n \<and> n < nextId' \<and> ds' ! j = ((d # ds) ! j)\<lparr>persistentId := Some n\<rparr>)"
    proof (intro allI impI)
      fix j assume j: "j < length (d # ds)" "index + j \<notin> used"
      show "\<exists>n. nextId \<le> n \<and> n < nextId' \<and> ds' ! j = ((d # ds) ! j)\<lparr>persistentId := Some n\<rparr>"
      proof (cases j)
        case 0
        then show ?thesis using eqs lt by auto
      next
        case (Suc j')
        with j IH obtain n where "Suc nextId \<le> n" "n < r3" "r1 ! j' = (ds ! j')\<lparr>persistentId := Some n\<rparr>"
          by auto
        then show ?thesis using Suc eqs by (intro exI[of _ n]) simp
      qed
    qed
    have c: "concat (map (\<lambda>j. if index + j \<in> used then [] else stampOf (ds' ! j)) [0..<length (d # ds)])
       = [nextId..<nextId']"
    proof -
      have "concat (map (\<lambda>j. if index + j \<in> used then [] else stampOf (ds' ! j)) [0..<length (d # ds)])
              = nextId # [Suc nextId..<nextId']"
        using IH eqs False by (simp only: upt) (simp add: comp_def stampOf_def cong: if_cong del: upt_Suc)
      also have "\<dots> = [nextId..<nextId']" using lt by (simp add: upt_conv_Cons del: upt_Suc)
      finally show ?thesis .
    qed
    from IH eqs False a b c tbl show ?thesis by simp
  qed
qed

lemma carryForward_filter:
  "distinct (map fst old) \<Longrightarrow>
   carryForward now old new = new @ filter (survives now new) old"
proof (induction old arbitrary: new)
  case Nil
  then show ?case by simp
next
  case (Cons e old)
  obtain tid td where e: "e = (tid, td)" by (cases e)
  from Cons.prems have d: "distinct (map fst old)" and notin: "tid \<notin> set (map fst old)"
    by (auto simp: e)
  show ?case
  proof (cases "survives now new e")
    case True
    then have fresh: "tid \<notin> set (map fst new)" by (simp add: survives_def map_has_def e)
    have same: "filter (survives now (new @ [(tid, td)])) old = filter (survives now new) old"
      using notin by (intro filter_cong) (auto simp: survives_def map_has_def)
    from True have "carryForward now (e # old) new = carryForward now old (map_set tid td new)"
      by (simp add: e survives_def)
    also have "\<dots> = (new @ [(tid, td)]) @ filter (survives now (new @ [(tid, td)])) old"
      using Cons.IH[OF d] by (simp add: map_set_fresh[OF fresh])
    finally show ?thesis using True same by (simp add: e)
  next
    case False
    then have "carryForward now (e # old) new = carryForward now old new"
      by (auto simp: e survives_def)
    with Cons.IH[OF d] False show ?thesis by simp
  qed
qed

text \<open>What one cycle computes, for a state that satisfies the invariant.\<close>

lemma reconcile_unfold:
  assumes inv: "tracker_inv s"
      and pairs: "pairs = matchedPairsOf s ds"
      and used: "used = usedIndicesOf s ds"
      and new: "new = newEntries used now ds 0 (nextFaceId s)"
  shows "reconcile s ds now =
           (fst (reconcile s ds now),
            s\<lparr>trackedFaces :=
                 map (\<lambda>p. (trackId p, refreshed now (detection p))) pairs @ new
                 @ filter (\<lambda>e. now - lastSeen (snd e) \<le> MAX_INACTIVITY_MS
                               \<and> fst e \<notin> trackId ` set pairs) (trackedFaces s),
               nextFaceId := nextFaceId s + length new\<rparr>)"
    and "length (fst (reconcile s ds now)) = length ds"
    and "\<forall>p\<in>set pairs. fst (reconcile s ds now) ! detectionIndex p
            = (ds ! detectionIndex p)\<lparr>persistentId := Some (trackId p)\<rparr>"
    and "\<forall>j<length ds. j \<notin> used \<longrightarrow>
            (\<exists>n. nextFaceId s \<le> n \<and> n < nextFaceId s + length new
                  \<and> fst (reconcile s ds now) ! j = (ds ! j)\<lparr>persistentId := Some n\<rparr>)"
    and "createdIds s ds now = [nextFaceId s ..< nextFaceId s + length new]"
proof -
  have mt: "matchTracks (trackedFaces s) ds ([], {}) = (pairs, used)"
    by (simp add: pairs used matchedPairsOf_def usedIndicesOf_def)
  from matchTracks_acc[OF mt] inv have
    u: "used = detectionIndex ` set pairs" and
    di: "distinct (map detectionIndex pairs)" and
    pr: "\<forall>p\<in>set pairs. detectionIndex p < length ds \<and> detection p = ds ! detectionIndex p" and
    sub: "set (map trackId pairs) \<subseteq> set (map fst (trackedFaces s))" and
    dt: "distinct (map trackId pairs)"
    by (auto simp: tracker_inv_def)
  obtain tbl1 ds1 where am: "applyMatches now pairs ([], ds) = (tbl1, ds1)"
    by (cases "applyMatches now pairs ([], ds)")
  have tbl1: "tbl1 = map (\<lambda>p. (trackId p, refreshed now (detection p))) pairs"
    using applyMatches_table[OF dt, of "[]" now ds] am by simp
  have len1: "length ds1 = length ds" using applyMatches_length[of now pairs "[]" ds] am by simp
  have ds1_other: "\<And>i. i \<notin> used \<Longrightarrow> ds1 ! i = ds ! i"
    using applyMatches_other[of _ pairs now "[]" ds] am u by simp
  have ds1_st: "\<And>p. p \<in> set pairs \<Longrightarrow> ds1 ! detectionIndex p
                  = (ds ! detectionIndex p)\<lparr>persistentId := Some (trackId p)\<rparr>"
    using applyMatches_stamped[OF di, of _ ds now "[]"] am pr by simp
  have ds1_f: "\<forall>j<length ds. boundingBox (ds1 ! j) = boundingBox (ds ! j) \<and> personId (ds1 ! j) = personId (ds ! j)"
    using applyMatches_fields[of _ ds now pairs "[]"] am by simp
  obtain ds2 tbl2 n2 where ct: "createTracks used now ds1 0 tbl1 (nextFaceId s) = (ds2, tbl2, n2)"
    by (cases "createTracks used now ds1 0 tbl1 (nextFaceId s)")
  have keys1: "\<forall>k\<in>set (map fst tbl1). k < nextFaceId s"
  proof
    fix k assume "k \<in> set (map fst tbl1)"
    then have "k \<in> set (map trackId pairs)" by (auto simp: tbl1)
    with sub have "k \<in> set (map fst (trackedFaces s))" by blast
    with inv show "k < nextFaceId s" by (auto simp: tracker_inv_def)
  qed
  have ne: "newEntries used now ds1 0 (nextFaceId s) = new"
    unfolding new by (rule newEntries_cong[OF len1 ds1_f])
  from createTracks_result[OF keys1 ct] ne len1 have
    tbl2: "tbl2 = tbl1 @ new" and n2: "n2 = nextFaceId s + length new" and
    len2: "length ds2 = length ds" and
    ds2_used: "\<forall>j<length ds. j \<in> used \<longrightarrow> ds2 ! j = ds1 ! j" and
    ds2_new: "\<forall>j<length ds. j \<notin> used \<longrightarrow>
         (\<exists>n. nextFaceId s \<le> n \<and> n < n2 \<and> ds2 ! j = (ds1 ! j)\<lparr>persistentId := Some n\<rparr>)" and
    st: "concat (map (\<lambda>j. if j \<in> used then [] else stampOf (ds2 ! j)) [0..<length ds])
           = [nextFaceId s..<n2]"
    by auto
  have rec: "reconcile s ds now =
      (ds2, s\<lparr>trackedFaces := carryForward now (trackedFaces s) tbl2, nextFaceId := n2\<rparr>)"
    by (simp add: reconcile_def mt am ct)
  have keys_new: "set (map fst new) = {nextFaceId s ..< nextFaceId s + length new}"
    unfolding new by (subst newEntries_keys) simp
  have surv: "filter (survives now tbl2) (trackedFaces s)
      = filter (\<lambda>e. now - lastSeen (snd e) \<le> MAX_INACTIVITY_MS \<and> fst e \<notin> trackId ` set pairs)
          (trackedFaces s)"
  proof (rule filter_cong[OF refl])
    fix e assume "e \<in> set (trackedFaces s)"
    then have "fst e < nextFaceId s" using inv by (auto simp: tracker_inv_def)
    then have "fst e \<notin> set (map fst new)" unfolding keys_new by simp
    then show "survives now tbl2 e
         = (now - lastSeen (snd e) \<le> MAX_INACTIVITY_MS \<and> fst e \<notin> trackId ` set pairs)"
      by (auto simp: survives_def map_has_def tbl2 tbl1 image_iff)
  qed
  have cf: "carryForward now (trackedFaces s) tbl2 = tbl2 @ filter (survives now tbl2) (trackedFaces s)"
    using inv by (intro carryForward_filter) (simp add: tracker_inv_def)
  show "reconcile s ds now =
           (fst (reconcile s ds now),
            s\<lparr>trackedFaces :=
                 map (\<lambda>p. (trackId p, refreshed now (detection p))) pairs @ new
                 @ filter (\<lambda>e. now - lastSeen (snd e) \<le> MAX_INACTIVITY_MS
                               \<and> fst e \<notin> trackId ` set pairs) (trackedFaces s),
               nextFaceId := nextFaceId s + length new\<rparr>)"
    by (simp only: rec cf surv) (simp add: tbl2 tbl1 n2)
  show "length (fst (reconcile s ds now)) = length ds" by (simp add: rec len2)
  show "\<forall>p\<in>set pairs. fst (reconcile s ds now) ! detectionIndex p
            = (ds ! detectionIndex p)\<lparr>persistentId := Some (trackId p)\<rparr>"
    using ds2_used ds1_st pr u by (simp add: rec)
  show "\<forall>j<length ds. j \<notin> used \<longrightarrow>
            (\<exists>n. nextFaceId s \<le> n \<and> n < nextFaceId s + length new
                  \<and> fst (reconcile s ds now) ! j = (ds ! j)\<lparr>persistentId := Some n\<rparr>)"
    using ds2_new ds1_other by (simp add: rec n2)
  show "createdIds s ds now = [nextFaceId s ..< nextFaceId s + length new]"
    using st by (simp add: createdIds_def used[symmetric] rec n2 stampOf_def cong: if_cong)
qed

lemma reconcile_keys:
  assumes "tracker_inv s"
  shows "map fst (trackedFaces (snd (reconcile s ds now)))
           = map trackId (matchedPairsOf s ds)
             @ [nextFaceId s ..< nextFaceId (snd (reconcile s ds now))]
             @ map fst (filter (\<lambda>e. now - lastSeen (snd e) \<le> MAX_INACTIVITY_MS
                               \<and> fst e \<notin> trackId ` set (matchedPairsOf s ds)) (trackedFaces s))"
    and "nextFaceId (snd (reconcile s ds now))
           = nextFaceId s + length (newEntries (usedIndicesOf s ds) now ds 0 (nextFaceId s))"
proof -
  note u = reconcile_unfold(1)[OF assms refl refl refl, of ds now]
  show n: "nextFaceId (snd (reconcile s ds now))
           = nextFaceId s + length (newEntries (usedIndicesOf s ds) now ds 0 (nextFaceId s))"
    by (subst u) simp
  show "map fst (trackedFaces (snd (reconcile s ds now)))
           = map trackId (matchedPairsOf s ds)
             @ [nextFaceId s ..< nextFaceId (snd (reconcile s ds now))]
             @ map fst (filter (\<lambda>e. now - lastSeen (snd e) \<le> MAX_INACTIVITY_MS
                               \<and> fst e \<notin> trackId ` set (matchedPairsOf s ds)) (trackedFaces s))"
    unfolding n by (subst u) (simp add: comp_def newEntries_keys[symmetric])
qed

lemma reconcile_table:
  assumes "tracker_inv s"
  shows "trackedFaces (snd (reconcile s ds now))
           = map (\<lambda>p. (trackId p, refreshed now (detection p))) (matchedPairsOf s ds)
             @ newEntries (usedIndicesOf s ds) now ds 0 (nextFaceId s)
             @ filter (\<lambda>e. now - lastSeen (snd e) \<le> MAX_INACTIVITY_MS
                               \<and> fst e \<notin> trackId ` set (matchedPairsOf s ds)) (trackedFaces s)"
  by (subst reconcile_unfold(1)[OF assms refl refl refl]) simp

lemma reconcile_inv:
  assumes inv: "tracker_inv s"
  shows "tracker_inv (snd (reconcile s ds now))"
proof -
  let ?s' = "snd (reconcile s ds now)"
  let ?P = "\<lambda>e. now - lastSeen (snd e) \<le> MAX_INACTIVITY_MS
                               \<and> fst e \<notin> trackId ` set (matchedPairsOf s ds)"
  from inv have d: "distinct (map fst (trackedFaces s))" by (simp add: tracker_inv_def)
  have old: "\<And>k. k \<in> set (map fst (trackedFaces s)) \<Longrightarrow> 1 \<le> k \<and> k < nextFaceId s"
    using inv by (auto simp: tracker_inv_def)
  note mf = matchedPairs_facts[OF d, of ds]
  have le: "nextFaceId s \<le> nextFaceId ?s'" by (simp add: reconcile_keys(2)[OF inv])
  have m: "\<And>k. k \<in> set (map trackId (matchedPairsOf s ds)) \<Longrightarrow> 1 \<le> k \<and> k < nextFaceId s"
    using mf(4) old by blast
  have f: "1 \<le> k \<and> k < nextFaceId s \<and> k \<notin> set (map trackId (matchedPairsOf s ds))"
    if "k \<in> set (map fst (filter ?P (trackedFaces s)))" for k
  proof -
    from that obtain e where e: "e \<in> set (trackedFaces s)" "?P e" "k = fst e" by auto
    then have "k \<in> set (map fst (trackedFaces s))" by simp
    with old[of k] e show ?thesis by simp
  qed
  have ab: "set (map trackId (matchedPairsOf s ds)) \<inter> set [nextFaceId s ..< nextFaceId ?s'] = {}"
  proof -
    have "k \<notin> set [nextFaceId s ..< nextFaceId ?s']"
      if "k \<in> set (map trackId (matchedPairsOf s ds))" for k
      using m[OF that] by simp
    then show ?thesis by blast
  qed
  have ac: "set (map trackId (matchedPairsOf s ds)) \<inter> set (map fst (filter ?P (trackedFaces s))) = {}"
    using f by blast
  have bc: "set [nextFaceId s ..< nextFaceId ?s'] \<inter> set (map fst (filter ?P (trackedFaces s))) = {}"
  proof -
    have "k \<notin> set [nextFaceId s ..< nextFaceId ?s']"
      if "k \<in> set (map fst (filter ?P (trackedFaces s)))" for k
      using f[OF that] by simp
    then show ?thesis by blast
  qed
  have dc: "distinct (map fst (filter ?P (trackedFaces s)))"
    using d by (rule distinct_map_filter)
  have abc: "set (map trackId (matchedPairsOf s ds))
               \<inter> (set [nextFaceId s ..< nextFaceId ?s'] \<union> set (map fst (filter ?P (trackedFaces s)))) = {}"
    using ab ac by blast
  have bcd: "distinct ([nextFaceId s ..< nextFaceId ?s'] @ map fst (filter ?P (trackedFaces s)))"
    using dc bc by simp
  have dist: "distinct (map fst (trackedFaces ?s'))"
    unfolding reconcile_keys(1)[OF inv]
    using mf(3) bcd abc by (simp only: distinct_append set_append)
  have bounds: "\<forall>k\<in>set (map fst (trackedFaces ?s')). 1 \<le> k \<and> k < nextFaceId ?s'"
  proof
    fix k assume "k \<in> set (map fst (trackedFaces ?s'))"
    then have "k \<in> set (map trackId (matchedPairsOf s ds))
      \<or> k \<in> set [nextFaceId s ..< nextFaceId ?s']
      \<or> k \<in> set (map fst (filter ?P (trackedFaces s)))"
      by (simp only: reconcile_keys(1)[OF inv] set_append Un_iff)
    then show "1 \<le> k \<and> k < nextFaceId ?s'"
    proof (elim disjE)
      assume "k \<in> set (map trackId (matchedPairsOf s ds))"
      with m[of k] le show ?thesis by simp
    next
      assume "k \<in> set [nextFaceId s ..< nextFaceId ?s']"
      with inv show ?thesis by (simp add: tracker_inv_def)
    next
      assume "k \<in> set (map fst (filter ?P (trackedFaces s)))"
      with f[of k] le show ?thesis by simp
    qed
  qed
  have "1 \<le> nextFaceId ?s'" using le inv by (simp add: tracker_inv_def)
  with dist bounds show ?thesis by (simp only: tracker_inv_def)
qed

lemma createdIds_upt:
  "tracker_inv s \<Longrightarrow>
   createdIds s ds now = [nextFaceId s ..< nextFaceId (snd (reconcile s ds now))]"
  using reconcile_unfold(5)[OF _ refl refl refl, of s ds now]
  by (simp add: reconcile_keys(2))

lemma nextFaceId_mono: "tracker_inv s \<Longrightarrow> nextFaceId s \<le> nextFaceId (snd (reconcile s ds now))"
  by (simp add: reconcile_keys(2))

text \<open>A matched track keeps its identifier: its entry is refreshed, the detection stamped.\<close>

lemma matched_track_kept:
  assumes inv: "tracker_inv s" and p: "p \<in> set (matchedPairsOf s ds)"
  shows "map_has (trackId p) (trackedFaces s)"
    and "map_get (trackedFaces (snd (reconcile s ds now))) (trackId p)
           = Some (refreshed now (ds ! detectionIndex p))"
    and "persistentId (fst (reconcile s ds now) ! detectionIndex p) = Some (trackId p)"
proof -
  from inv have dist: "distinct (map fst (trackedFaces s))" by (simp add: tracker_inv_def)
  note mf = matchedPairs_facts[OF dist, of ds]
  from mf(4) p show "map_has (trackId p) (trackedFaces s)" by (auto simp: map_has_def)
  from mf(5) p have det: "detection p = ds ! detectionIndex p" by blast
  have d': "distinct (map fst (trackedFaces (snd (reconcile s ds now))))"
    using reconcile_inv[OF inv, of ds now] by (simp add: tracker_inv_def)
  have "(trackId p, refreshed now (detection p)) \<in> set (trackedFaces (snd (reconcile s ds now)))"
    using p by (simp add: reconcile_table[OF inv] image_iff) blast
  from map_get_member[OF d' this] det
  show "map_get (trackedFaces (snd (reconcile s ds now))) (trackId p)
           = Some (refreshed now (ds ! detectionIndex p))" by simp
  from reconcile_unfold(3)[OF inv refl refl refl, of ds now] p
  show "persistentId (fst (reconcile s ds now) ! detectionIndex p) = Some (trackId p)" by simp
qed

lemma reconcile_ids_positive:
  assumes inv: "tracker_inv s" and j: "j < length ds"
  shows "\<exists>n. fst (reconcile s ds now) ! j = (ds ! j)\<lparr>persistentId := Some n\<rparr> \<and> 1 \<le> n"
proof -
  from inv have dist: "distinct (map fst (trackedFaces s))" by (simp add: tracker_inv_def)
  note mf = matchedPairs_facts[OF dist, of ds]
  note u = reconcile_unfold[OF inv refl refl refl, of ds now]
  show ?thesis
  proof (cases "j \<in> usedIndicesOf s ds")
    case True
    then obtain p where p: "p \<in> set (matchedPairsOf s ds)" "detectionIndex p = j"
      by (auto simp: mf(1))
    from mf(4) p(1) have "trackId p \<in> set (map fst (trackedFaces s))" by auto
    with inv have "1 \<le> trackId p" by (auto simp: tracker_inv_def)
    moreover from u(3) p
    have "fst (reconcile s ds now) ! j = (ds ! j)\<lparr>persistentId := Some (trackId p)\<rparr>" by auto
    ultimately show ?thesis by blast
  next
    case False
    with u(4) j obtain n where n: "nextFaceId s \<le> n"
      "fst (reconcile s ds now) ! j = (ds ! j)\<lparr>persistentId := Some n\<rparr>" by blast
    from inv n(1) have "1 \<le> n" by (simp add: tracker_inv_def)
    with n(2) show ?thesis by blast
  qed
qed

lemma concat_parts_differ:
  "distinct (concat (map g xs)) \<Longrightarrow> i < j \<Longrightarrow> j < length xs \<Longrightarrow>
   a \<in> set (g (xs ! i)) \<Longrightarrow> b \<in> set (g (xs ! j)) \<Longrightarrow> a \<noteq> b"
proof (induction xs arbitrary: i j)
  case Nil
  then show ?case by simp
next
  case (Cons x xs)
  from Cons.prems(2) obtain j' where j: "j = Suc j'" by (cases j) auto
  show ?case
  proof (cases i)
    case 0
    from Cons.prems(3,5) j have "b \<in> set (concat (map g xs))" by auto
    moreover from Cons.prems(4) 0 have "a \<in> set (g x)" by simp
    ultimately show ?thesis using Cons.prems(1) by auto
  next
    case (Suc i')
    with Cons.prems j show ?thesis using Cons.IH[of i' j'] by simp
  qed
qed

lemma reconcile_ids_distinct:
  assumes inv: "tracker_inv s"
  shows "distinct (map persistentId (fst (reconcile s ds now)))"
proof -
  let ?out = "fst (reconcile s ds now)"
  let ?used = "usedIndicesOf s ds"
  let ?g = "\<lambda>i. if i \<in> ?used then [] else (case persistentId (?out ! i) of None \<Rightarrow> [] | Some n \<Rightarrow> [n])"
  from inv have dist: "distinct (map fst (trackedFaces s))" by (simp add: tracker_inv_def)
  note mf = matchedPairs_facts[OF dist, of ds]
  note u = reconcile_unfold[OF inv refl refl refl, of ds now]
  have cr: "distinct (concat (map ?g [0..<length ds]))"
    using u(5) by (simp add: createdIds_def)
  have injT: "inj_on trackId (set (matchedPairsOf s ds))" using mf(3) by (simp add: distinct_map)
  have old: "trackId p < nextFaceId s" if "p \<in> set (matchedPairsOf s ds)" for p
  proof -
    from mf(4) that have "trackId p \<in> set (map fst (trackedFaces s))" by auto
    with inv show ?thesis by (auto simp: tracker_inv_def)
  qed
  have fresh: "\<exists>n. nextFaceId s \<le> n \<and> persistentId (?out ! j) = Some n"
    if "j < length ds" "j \<notin> ?used" for j
  proof -
    from u(4) that obtain n where
      "nextFaceId s \<le> n" "?out ! j = (ds ! j)\<lparr>persistentId := Some n\<rparr>" by blast
    then show ?thesis by (intro exI[of _ n]) simp
  qed
  have diff: "persistentId (?out ! i) \<noteq> persistentId (?out ! j)"
    if ij: "i < j" "j < length ds" for i j
  proof (cases "i \<in> ?used")
    case True
    then obtain p where p: "p \<in> set (matchedPairsOf s ds)" "detectionIndex p = i"
      by (auto simp: mf(1))
    with u(3) have pi: "persistentId (?out ! i) = Some (trackId p)" by auto
    show ?thesis
    proof (cases "j \<in> ?used")
      case True
      then obtain q where q: "q \<in> set (matchedPairsOf s ds)" "detectionIndex q = j"
        by (auto simp: mf(1))
      with u(3) have qj: "persistentId (?out ! j) = Some (trackId q)" by auto
      from p q ij have "p \<noteq> q" by auto
      with injT p(1) q(1) have "trackId p \<noteq> trackId q" by (meson inj_onD)
      with pi qj show ?thesis by simp
    next
      case False
      with fresh[of j] ij obtain n where "nextFaceId s \<le> n" "persistentId (?out ! j) = Some n" by blast
      with old[OF p(1)] pi show ?thesis by simp
    qed
  next
    case False
    with fresh[of i] ij obtain n where n: "nextFaceId s \<le> n" "persistentId (?out ! i) = Some n" by auto
    show ?thesis
    proof (cases "j \<in> ?used")
      case True
      then obtain q where q: "q \<in> set (matchedPairsOf s ds)" "detectionIndex q = j"
        by (auto simp: mf(1))
      with u(3) have "persistentId (?out ! j) = Some (trackId q)" by auto
      with old[OF q(1)] n show ?thesis by simp
    next
      case F2: False
      with fresh[of j] ij obtain m where m: "persistentId (?out ! j) = Some m" by blast
      have "n \<in> set (?g ([0..<length ds] ! i))" using False n(2) ij by simp
      moreover have "m \<in> set (?g ([0..<length ds] ! j))" using F2 m ij by simp
      ultimately have "n \<noteq> m"
        using concat_parts_differ[OF cr, of i j n m] ij by simp
      with n m show ?thesis by simp
    qed
  qed
  show ?thesis
  proof (simp only: distinct_conv_nth length_map u(2), intro allI impI)
    fix i j assume "i < length ds" "j < length ds" "i \<noteq> j"
    then show "map persistentId ?out ! i \<noteq> map persistentId ?out ! j"
      using diff[of i j] diff[of j i] u(2) by (cases "i < j") (auto simp: nth_map)
  qed
qed

section \<open>Capture sessions\<close>

lemma fresh_inv: "trackedFaces s0 = [] \<Longrightarrow> nextFaceId s0 = 1 \<Longrightarrow> tracker_inv s0"
  by (simp add: tracker_inv_def)

lemma sessionStart_inv: "tracker_inv sessionStart"
  by (simp add: tracker_inv_def sessionStart_def)

lemma handleStartCamera_fresh:
  "trackedFaces (handleStartCamera outcome s) = [] \<and> nextFaceId (handleStartCamera outcome s) = 1"
  by (simp add: handleStartCamera_def Let_def split: option.split)

lemma runCycles_inv: "tracker_inv s \<Longrightarrow> tracker_inv (runCycles s cycles)"
proof (induction cycles arbitrary: s)
  case Nil
  then show ?case by simp
next
  case (Cons c cycles)
  obtain ds now where c: "c = (ds, now)" by (cases c)
  show ?case using Cons.IH[OF reconcile_inv[OF Cons.prems, of ds now]] by (simp add: c)
qed

lemma runCycles_mono: "tracker_inv s \<Longrightarrow> nextFaceId s \<le> nextFaceId (runCycles s cycles)"
proof (induction cycles arbitrary: s)
  case Nil
  then show ?case by simp
next
  case (Cons c cycles)
  obtain ds now where c: "c = (ds, now)" by (cases c)
  from Cons.IH[OF reconcile_inv[OF Cons.prems, of ds now]] nextFaceId_mono[OF Cons.prems, of ds now]
  show ?case by (simp add: c)
qed

lemma sessionCreatedIds_upt:
  "tracker_inv s \<Longrightarrow> sessionCreatedIds s cycles = [nextFaceId s ..< nextFaceId (runCycles s cycles)]"
proof (induction cycles arbitrary: s)
  case Nil
  then show ?case by simp
next
  case (Cons c cycles)
  obtain ds now where c: "c = (ds, now)" by (cases c)
  let ?s' = "snd (reconcile s ds now)"
  have inv': "tracker_inv ?s'" by (rule reconcile_inv[OF Cons.prems])
  have "sessionCreatedIds s (c # cycles)
          = [nextFaceId s ..< nextFaceId ?s'] @ [nextFaceId ?s' ..< nextFaceId (runCycles ?s' cycles)]"
    using Cons.IH[OF inv'] createdIds_upt[OF Cons.prems, of ds now] by (simp add: c)
  also have "\<dots> = [nextFaceId s ..< nextFaceId (runCycles ?s' cycles)]"
    using nextFaceId_mono[OF Cons.prems, of ds now] runCycles_mono[OF inv', of cycles]
    by (metis upt_add_eq_append le_Suc_ex append_assoc)
  finally show ?case by (simp add: c)
qed

lemma youngFirst_run: "youngFirst = runCycles sessionStart youngFirstCycles"
  by (simp add: youngFirst_def)

lemma youngFirst_eq:
  "youngFirst =
     \<lparr>trackedFaces =
        [(2, \<lparr>trackBox = mkBox 6 0 10 1, lastSeen = 11000, geminiId = ''person_1''\<rparr>),
         (1, \<lparr>trackBox = mkBox 0 0 10 1, lastSeen = 1000, geminiId = ''person_1''\<rparr>)],
      nextFaceId = 3\<rparr>"
  by (simp add: youngFirst_def eval_defs)

lemma youngFirst_table:
  "trackedFaces youngFirst =
     [(2, \<lparr>trackBox = mkBox 6 0 10 1, lastSeen = 11000, geminiId = ''person_1''\<rparr>),
      (1, \<lparr>trackBox = mkBox 0 0 10 1, lastSeen = 1000, geminiId = ''person_1''\<rparr>)]
   \<and> nextFaceId youngFirst = 3"
  by (simp add: youngFirst_def eval_defs)

lemma youngFirst_inv: "tracker_inv youngFirst"
  unfolding youngFirst_def by (rule runCycles_inv[OF sessionStart_inv])

lemma youngFirst_pairs:
  "map trackId (matchedPairsOf youngFirst [mkFace ''person_1'' (mkBox 3 0 10 1)]) = [2]"
  using youngFirst_table
  by (simp add: matchedPairsOf_def findBestMatch_def calculateIoU_def js_div_def Let_def IOU_THRESHOLD_def mkBox_def mkFace_def)

lemma thirdCycle_pairs:
  "matchedPairsOf youngFirst thirdCycle
     = [\<lparr>trackId = 2, detection = mkFace ''person_1'' (mkBox 3 0 10 1), detectionIndex = 0\<rparr>]"
  by (simp add: youngFirst_eq thirdCycle_def eval_defs)

lemma thirdCycle_reconcile:
  "reconcile youngFirst thirdCycle now =
     ([(mkFace ''person_1'' (mkBox 3 0 10 1))\<lparr>persistentId := Some 2\<rparr>,
       (mkFace ''person_2'' (mkBox 50 50 10 10))\<lparr>persistentId := Some 3\<rparr>],
      \<lparr>trackedFaces =
         [(2, \<lparr>trackBox = mkBox 3 0 10 1, lastSeen = now, geminiId = ''person_1''\<rparr>),
          (3, \<lparr>trackBox = mkBox 50 50 10 10, lastSeen = now, geminiId = ''person_2''\<rparr>)]
         @ (if now - 1000 \<le> 20000
            then [(1, \<lparr>trackBox = mkBox 0 0 10 1, lastSeen = 1000, geminiId = ''person_1''\<rparr>)]
            else []),
       nextFaceId = 4\<rparr>)"
  by (simp add: youngFirst_eq thirdCycle_def eval_defs)

text \<open>
  Claim C5. Within one capture session, which starts with an empty table and the counter
  at 1, the identifiers given to new tracks, in the order of their creation over any
  sequence of cycles, are strictly increasing, so no two tracks created in the session
  share an identifier; and a track that is matched in a cycle stands in the new table
  under the same identifier, refreshed from its detection, which is stamped with that
  identifier.
\<close>

theorem trackIds_increasing_and_stable:
  assumes "trackedFaces s0 = []" and "nextFaceId s0 = 1"
  shows "sorted_wrt (<) (sessionCreatedIds s0 cycles)
       \<and> distinct (sessionCreatedIds s0 cycles)
       \<and> (\<forall>p\<in>set (matchedPairsOf (runCycles s0 cycles) ds).
             map_has (trackId p) (trackedFaces (runCycles s0 cycles))
           \<and> map_get (trackedFaces (snd (reconcile (runCycles s0 cycles) ds now))) (trackId p)
               = Some \<lparr>trackBox = boundingBox (ds ! detectionIndex p), lastSeen = now,
                       geminiId = personId (ds ! detectionIndex p)\<rparr>
           \<and> persistentId (fst (reconcile (runCycles s0 cycles) ds now) ! detectionIndex p)
               = Some (trackId p))"
proof -
  have inv0: "tracker_inv s0" using assms by (rule fresh_inv)
  have inv: "tracker_inv (runCycles s0 cycles)" by (rule runCycles_inv[OF inv0])
  have ids: "sessionCreatedIds s0 cycles = [nextFaceId s0 ..< nextFaceId (runCycles s0 cycles)]"
    by (rule sessionCreatedIds_upt[OF inv0])
  have a: "sorted_wrt (<) (sessionCreatedIds s0 cycles)" by (simp only: ids sorted_wrt_upt)
  have b: "distinct (sessionCreatedIds s0 cycles)" by (simp only: ids distinct_upt)
  have c: "map_has (trackId p) (trackedFaces (runCycles s0 cycles))
           \<and> map_get (trackedFaces (snd (reconcile (runCycles s0 cycles) ds now))) (trackId p)
               = Some \<lparr>trackBox = boundingBox (ds ! detectionIndex p), lastSeen = now,
                       geminiId = personId (ds ! detectionIndex p)\<rparr>
           \<and> persistentId (fst (reconcile (runCycles s0 cycles) ds now) ! detectionIndex p)
               = Some (trackId p)"
    if "p \<in> set (matchedPairsOf (runCycles s0 cycles) ds)" for p
    using matched_track_kept(1)[OF inv that] matched_track_kept(2)[OF inv that, of now]
          matched_track_kept(3)[OF inv that, of now]
    by (simp add: refreshed_def)
  from a b c show ?thesis by blast
qed

theorem trackIds_increasing_and_stable_witness:
  "trackedFaces sessionStart = [] \<and> nextFaceId sessionStart = 1
   \<and> sessionCreatedIds sessionStart (youngFirstCycles @ [(thirdCycle, 21000)]) = [1, 2, 3]
   \<and> map trackId (matchedPairsOf (runCycles sessionStart youngFirstCycles) thirdCycle) = [2]
   \<and> map_get (trackedFaces (snd (reconcile (runCycles sessionStart youngFirstCycles) thirdCycle 21000))) 2
       = Some \<lparr>trackBox = mkBox 3 0 10 1, lastSeen = 21000, geminiId = ''person_1''\<rparr>
   \<and> persistentId (fst (reconcile (runCycles sessionStart youngFirstCycles) thirdCycle 21000) ! 0)
       = Some 2"
proof -
  have h1: "trackedFaces sessionStart = []" and h2: "nextFaceId sessionStart = 1"
    by (simp_all add: sessionStart_def)
  have ids: "sessionCreatedIds sessionStart (youngFirstCycles @ [(thirdCycle, 21000)]) = [1, 2, 3]"
    by (simp add: youngFirstCycles_def thirdCycle_def eval_defs)
  from trackIds_increasing_and_stable[OF h1 h2, of "youngFirstCycles" thirdCycle 21000]
       h1 h2 ids thirdCycle_pairs
  show ?thesis
    by (simp add: youngFirst_run[symmetric] thirdCycle_reconcile thirdCycle_def mkFace_def)
qed

text \<open>
  Claim C4. In every state that a session reaches, for a track of the table that receives
  no match in the cycle: when \<open>now - lastSeen\<close> exceeds 20000 ms the track is absent from
  the new table and no later cycle gives its identifier to a new track; when
  \<open>now - lastSeen\<close> is at most 20000 ms the new table holds the track unmodified.
\<close>

theorem unmatched_track_expiry:
  assumes "trackedFaces s0 = []" and "nextFaceId s0 = 1"
      and s: "s = runCycles s0 cycles"
      and mem: "(tid, td) \<in> set (trackedFaces s)"
      and unmatched: "tid \<notin> trackId ` set (matchedPairsOf s ds)"
  shows "(now - lastSeen td > 20000 \<longrightarrow>
            \<not> map_has tid (trackedFaces (snd (reconcile s ds now)))
          \<and> (\<forall>later. tid \<notin> set (sessionCreatedIds s ((ds, now) # later))))
       \<and> (now - lastSeen td \<le> 20000 \<longrightarrow>
            map_get (trackedFaces (snd (reconcile s ds now))) tid = Some td)"
proof -
  let ?s' = "snd (reconcile s ds now)"
  let ?P = "\<lambda>e. now - lastSeen (snd e) \<le> MAX_INACTIVITY_MS
                               \<and> fst e \<notin> trackId ` set (matchedPairsOf s ds)"
  have inv: "tracker_inv s" unfolding s by (rule runCycles_inv[OF fresh_inv[OF assms(1,2)]])
  from inv have dist: "distinct (map fst (trackedFaces s))" by (simp add: tracker_inv_def)
  from inv mem have lt: "tid < nextFaceId s" by (auto simp: tracker_inv_def)
  have keys: "set (map fst (trackedFaces ?s'))
      = set (map trackId (matchedPairsOf s ds)) \<union> set [nextFaceId s ..< nextFaceId ?s']
        \<union> set (map fst (filter ?P (trackedFaces s)))"
    by (simp only: reconcile_keys(1)[OF inv] set_append Un_assoc)
  have only: "e = (tid, td)" if "e \<in> set (trackedFaces s)" "fst e = tid" for e
  proof -
    have "inj_on fst (set (trackedFaces s))" using dist by (simp add: distinct_map)
    from inj_onD[OF this _ that(1) mem] that(2) show ?thesis by simp
  qed
  have never: "tid \<notin> set (sessionCreatedIds s cs)" for cs
    using lt by (simp add: sessionCreatedIds_upt[OF inv])
  have gone: "\<not> map_has tid (trackedFaces ?s')" if old: "now - lastSeen td > 20000"
  proof -
    have "tid \<notin> set (map fst (filter ?P (trackedFaces s)))"
    proof
      assume "tid \<in> set (map fst (filter ?P (trackedFaces s)))"
      then obtain e where e: "e \<in> set (trackedFaces s)" "?P e" "fst e = tid" by auto
      from only[OF e(1,3)] e(2) old show False by (simp add: MAX_INACTIVITY_MS_def)
    qed
    with unmatched lt have "tid \<notin> set (map fst (trackedFaces ?s'))"
      unfolding keys by simp
    then show ?thesis by (simp only: map_has_def not_False_eq_True)
  qed
  have kept: "map_get (trackedFaces ?s') tid = Some td" if young: "now - lastSeen td \<le> 20000"
  proof -
    have "(tid, td) \<in> set (filter ?P (trackedFaces s))"
      using mem unmatched young by (simp add: MAX_INACTIVITY_MS_def)
    then have "(tid, td) \<in> set (trackedFaces ?s')" by (simp add: reconcile_table[OF inv])
    moreover have "distinct (map fst (trackedFaces ?s'))"
      using reconcile_inv[OF inv, of ds now] by (simp add: tracker_inv_def)
    ultimately show ?thesis by (intro map_get_member)
  qed
  from gone never kept show ?thesis by blast
qed

theorem unmatched_track_expiry_witness:
  "(1, \<lparr>trackBox = mkBox 0 0 10 1, lastSeen = 1000, geminiId = ''person_1''\<rparr>)
     \<in> set (trackedFaces youngFirst)
   \<and> 1 \<notin> trackId ` set (matchedPairsOf youngFirst thirdCycle)
   \<and> map_get (trackedFaces (snd (reconcile youngFirst thirdCycle 20900))) 1
       = Some \<lparr>trackBox = mkBox 0 0 10 1, lastSeen = 1000, geminiId = ''person_1''\<rparr>
   \<and> \<not> map_has 1 (trackedFaces (snd (reconcile youngFirst thirdCycle 21001)))
   \<and> 1 \<notin> set (sessionCreatedIds youngFirst [(thirdCycle, 21001), (thirdCycle, 51001)])"
proof -
  let ?td = "\<lparr>trackBox = mkBox 0 0 10 1, lastSeen = 1000, geminiId = ''person_1''\<rparr>"
  have h1: "trackedFaces sessionStart = []" and h2: "nextFaceId sessionStart = 1"
    by (simp_all add: sessionStart_def)
  have mem: "(1, ?td) \<in> set (trackedFaces youngFirst)" by (simp add: youngFirst_eq)
  have un: "1 \<notin> trackId ` set (matchedPairsOf youngFirst thirdCycle)"
    by (simp add: thirdCycle_pairs)
  have kept: "map_get (trackedFaces (snd (reconcile youngFirst thirdCycle 20900))) 1 = Some ?td"
    using unmatched_track_expiry[OF h1 h2 youngFirst_run mem un, of 20900] by simp
  have gone: "\<not> map_has 1 (trackedFaces (snd (reconcile youngFirst thirdCycle 21001)))
      \<and> 1 \<notin> set (sessionCreatedIds youngFirst [(thirdCycle, 21001), (thirdCycle, 51001)])"
    using unmatched_track_expiry[OF h1 h2 youngFirst_run mem un, of 21001]
    by (auto simp del: sessionCreatedIds.simps)
  from mem un kept gone show ?thesis by (simp del: sessionCreatedIds.simps)
qed

text \<open>
  Claim C10. In every state that a session reaches, each detection that a cycle returns
  carries an identifier, and that identifier is at least 1; so the truthiness test of the
  attendance step holds for every annotated detection.
\<close>

theorem stamped_ids_positive:
  assumes "trackedFaces s0 = []" and "nextFaceId s0 = 1"
      and s: "s = runCycles s0 cycles"
  shows "length (fst (reconcile s ds now)) = length ds
       \<and> (\<forall>j<length ds. \<exists>n. persistentId (fst (reconcile s ds now) ! j) = Some n \<and> 1 \<le> n)
       \<and> (\<forall>d\<in>set (fst (reconcile s ds now)). truthy_id (persistentId d))"
proof -
  have inv: "tracker_inv s" unfolding s by (rule runCycles_inv[OF fresh_inv[OF assms(1,2)]])
  have len: "length (fst (reconcile s ds now)) = length ds"
    by (rule reconcile_unfold(2)[OF inv refl refl refl])
  have pos: "\<exists>n. persistentId (fst (reconcile s ds now) ! j) = Some n \<and> 1 \<le> n"
    if j: "j < length ds" for j
    using reconcile_ids_positive[OF inv j, of now] by auto
  have tr: "truthy_id (persistentId d)" if "d \<in> set (fst (reconcile s ds now))" for d
  proof -
    from that obtain j where "j < length ds" "d = fst (reconcile s ds now) ! j"
      by (auto simp: in_set_conv_nth len)
    with pos[of j] show ?thesis by auto
  qed
  from len pos tr show ?thesis by blast
qed

theorem stamped_ids_positive_witness:
  "trackedFaces sessionStart = [] \<and> nextFaceId sessionStart = 1
   \<and> map persistentId (fst (reconcile (runCycles sessionStart youngFirstCycles) thirdCycle 21000))
       = [Some 2, Some 3]
   \<and> truthy_id (Some 2) \<and> truthy_id (Some 3)"
proof -
  have h1: "trackedFaces sessionStart = []" and h2: "nextFaceId sessionStart = 1"
    by (simp_all add: sessionStart_def)
  from stamped_ids_positive[OF h1 h2 youngFirst_run, of thirdCycle 21000] h1 h2
  show ?thesis
    by (simp add: youngFirst_run[symmetric] thirdCycle_reconcile)
qed

text \<open>
  Claim C2, as the code has it. Tracks are considered for matching in the insertion order
  of the table. When two tracks both score above the threshold on a detection that is
  not consumed when the loop reaches the one that stands earlier in the table, the earlier
  one is matched in that cycle, with that detection or with one on which it scores at
  least as high, and the later one is never matched with the detection the earlier one
  took. After a cycle the table lists the tracks matched in it, in their previous order,
  then the tracks created in it, then the unmatched survivors: the order of the table is
  not the order of creation.
\<close>

theorem earlier_in_table_first_pick:
  assumes inv: "tracker_inv s"
      and tbl: "trackedFaces s = pre @ (t1, td1) # mid @ (t2, td2) # post"
      and k: "k < length ds" "k \<notin> consumedBefore pre ds"
      and s1: "js_gt (calculateIoU (trackBox td1) (boundingBox (ds ! k))) (Num IOU_THRESHOLD)"
      and s2: "js_gt (calculateIoU (trackBox td2) (boundingBox (ds ! k))) (Num IOU_THRESHOLD)"
  shows "(\<exists>p\<in>set (matchedPairsOf s ds). trackId p = t1
            \<and> \<not> js_gt (calculateIoU (trackBox td1) (boundingBox (ds ! k)))
                      (calculateIoU (trackBox td1) (boundingBox (ds ! detectionIndex p)))
            \<and> (\<forall>q\<in>set (matchedPairsOf s ds). trackId q = t2 \<longrightarrow>
                   detectionIndex q \<noteq> detectionIndex p))
       \<and> map fst (trackedFaces (snd (reconcile s ds now)))
           = map trackId (matchedPairsOf s ds) @ createdIds s ds now
             @ map fst (filter (\<lambda>e. now - lastSeen (snd e) \<le> MAX_INACTIVITY_MS
                                  \<and> fst e \<notin> trackId ` set (matchedPairsOf s ds)) (trackedFaces s))
       \<and> map trackId (matchedPairsOf s ds)
           = filter (\<lambda>i. i \<in> trackId ` set (matchedPairsOf s ds)) (map fst (trackedFaces s))"
proof -
  from inv have dist: "distinct (map fst (trackedFaces s))" by (simp add: tracker_inv_def)
  have ne: "t1 \<noteq> t2" using dist by (simp add: tbl)
  note at = matchedPairs_at[OF tbl dist, of ds]
  have sk: "IOU_THRESHOLD < score (trackBox td1) (ds ! k)" using s1 by (simp add: js_gt_score)
  obtain i where i: "findBestMatch (trackBox td1) (consumedBefore pre ds) ds = Some i"
  proof (cases "findBestMatch (trackBox td1) (consumedBefore pre ds) ds")
    case None
    from findBestMatch_None[OF None] k sk show ?thesis by auto
  next
    case (Some i)
    then show ?thesis by (rule that)
  qed
  let ?p = "\<lparr>trackId = t1, detection = ds ! i, detectionIndex = i\<rparr>"
  have p: "?p \<in> set (matchedPairsOf s ds)" by (rule at(2)[OF i])
  from findBestMatch_Some[OF i] k
  have best: "\<not> score (trackBox td1) (ds ! i) < score (trackBox td1) (ds ! k)" by (simp add: not_less)
  have inj: "inj_on detectionIndex (set (matchedPairsOf s ds))"
    using matchedPairs_facts(2)[OF dist, of ds] by (simp add: distinct_map)
  have other: "detectionIndex q \<noteq> i" if "q \<in> set (matchedPairsOf s ds)" "trackId q = t2" for q
  proof
    assume "detectionIndex q = i"
    then have "detectionIndex q = detectionIndex ?p" by simp
    with inj that(1) p have "q = ?p" by (meson inj_onD)
    with that(2) ne show False by simp
  qed
  have first: "\<exists>p\<in>set (matchedPairsOf s ds). trackId p = t1
            \<and> \<not> js_gt (calculateIoU (trackBox td1) (boundingBox (ds ! k)))
                      (calculateIoU (trackBox td1) (boundingBox (ds ! detectionIndex p)))
            \<and> (\<forall>q\<in>set (matchedPairsOf s ds). trackId q = t2 \<longrightarrow>
                   detectionIndex q \<noteq> detectionIndex p)"
    using p best other by (intro bexI[of _ ?p]) (simp_all add: js_gt_score)
  have mt: "matchTracks (trackedFaces s) ds ([], {}) = (matchedPairsOf s ds, usedIndicesOf s ds)"
    by (simp add: matchedPairsOf_def usedIndicesOf_def)
  from matchTracks_order[OF dist mt]
  have order: "map trackId (matchedPairsOf s ds)
           = filter (\<lambda>i. i \<in> trackId ` set (matchedPairsOf s ds)) (map fst (trackedFaces s))"
    by simp
  have keys: "map fst (trackedFaces (snd (reconcile s ds now)))
           = map trackId (matchedPairsOf s ds) @ createdIds s ds now
             @ map fst (filter (\<lambda>e. now - lastSeen (snd e) \<le> MAX_INACTIVITY_MS
                                  \<and> fst e \<notin> trackId ` set (matchedPairsOf s ds)) (trackedFaces s))"
    by (simp only: reconcile_keys(1)[OF inv] createdIds_upt[OF inv])
  from first keys order show ?thesis by (intro conjI)
qed

theorem earlier_in_table_first_pick_witness:
  "tracker_inv youngFirst
   \<and> trackedFaces youngFirst
       = [] @ (2, \<lparr>trackBox = mkBox 6 0 10 1, lastSeen = 11000, geminiId = ''person_1''\<rparr>)
            # [] @ (1, \<lparr>trackBox = mkBox 0 0 10 1, lastSeen = 1000, geminiId = ''person_1''\<rparr>) # []
   \<and> consumedBefore [] [mkFace ''person_1'' (mkBox 3 0 10 1)] = {}
   \<and> js_gt (calculateIoU (mkBox 6 0 10 1) (mkBox 3 0 10 1)) (Num IOU_THRESHOLD)
   \<and> js_gt (calculateIoU (mkBox 0 0 10 1) (mkBox 3 0 10 1)) (Num IOU_THRESHOLD)
   \<and> (\<exists>p\<in>set (matchedPairsOf youngFirst [mkFace ''person_1'' (mkBox 3 0 10 1)]).
         trackId p = 2 \<and> detectionIndex p = 0)
   \<and> map fst (trackedFaces (snd (reconcile youngFirst [mkFace ''person_1'' (mkBox 3 0 10 1)] 21000)))
       = [2, 1]"
  using earlier_in_table_first_pick
          [of youngFirst "[]" 2
              "\<lparr>trackBox = mkBox 6 0 10 1, lastSeen = 11000, geminiId = ''person_1''\<rparr>" "[]" 1
              "\<lparr>trackBox = mkBox 0 0 10 1, lastSeen = 1000, geminiId = ''person_1''\<rparr>" "[]" 0
              "[mkFace ''person_1'' (mkBox 3 0 10 1)]" 21000]
        youngFirst_inv youngFirst_table youngFirst_pairs
  by (simp add: eval_defs)

text \<open>
  The claim as the specification states it fails. After two cycles track 2, the younger
  one, stands before track 1; in the third cycle one detection scores above the threshold
  against both, and the pair recorded is that of track 2.
\<close>

theorem older_track_first_counterexample:
  "sessionCreatedIds sessionStart
     [([mkFace ''person_1'' (mkBox 0 0 10 1)], 1000),
      ([mkFace ''person_1'' (mkBox 6 0 10 1)], 11000)] = [1, 2]
   \<and> map fst (trackedFaces youngFirst) = [2, 1]
   \<and> js_gt (calculateIoU (mkBox 0 0 10 1) (mkBox 3 0 10 1)) (Num IOU_THRESHOLD)
   \<and> js_gt (calculateIoU (mkBox 6 0 10 1) (mkBox 3 0 10 1)) (Num IOU_THRESHOLD)
   \<and> map trackId (matchedPairsOf youngFirst [mkFace ''person_1'' (mkBox 3 0 10 1)]) = [2]"
  using youngFirst_table youngFirst_pairs
  by (simp add: eval_defs)

section \<open>Attendance logging\<close>

lemma logFace_truthy:
  "truthy_id (persistentId face) \<Longrightarrow>
   snd (logFace enrolled now face (reg, att))
     = (if shouldLog enrolled reg now face
        then (reg(the (persistentId face) \<mapsto> now), att @ [attendanceEvent now face])
        else (reg, att))"
  by (simp add: logFace_def shouldLog_def attendanceEvent_def split: option.split)

lemma logFaces_events:
  assumes "distinct (map persistentId fs)" and "\<forall>f\<in>set fs. truthy_id (persistentId f)"
  shows "snd (logFaces enrolled now fs (reg, att))
           = ((\<lambda>pid. if \<exists>f\<in>set fs. persistentId f = Some pid \<and> shouldLog enrolled reg now f
                      then Some now else reg pid),
              att @ map (attendanceEvent now) (filter (shouldLog enrolled reg now) fs))"
  using assms
proof (induction fs arbitrary: reg att)
  case Nil
  then show ?case by simp
next
  case (Cons f fs)
  obtain pid where pid: "persistentId f = Some pid" "pid \<noteq> 0"
    using Cons.prems(2) by (cases "persistentId f") auto
  have tr: "truthy_id (persistentId f)" using Cons.prems(2) by simp
  obtain f' reg1 att1 where lf: "logFace enrolled now f (reg, att) = (f', reg1, att1)"
    by (cases "logFace enrolled now f (reg, att)")
  from logFace_truthy[OF tr, of enrolled now reg att] lf
  have st1: "(reg1, att1) = (if shouldLog enrolled reg now f
        then (reg(pid \<mapsto> now), att @ [attendanceEvent now f]) else (reg, att))"
    by (simp add: pid)
  have others: "\<And>g. g \<in> set fs \<Longrightarrow> the (persistentId g) \<noteq> pid"
  proof -
    fix g assume g: "g \<in> set fs"
    with Cons.prems(1) pid have "persistentId g \<noteq> Some pid" by (auto simp: image_iff)
    moreover from Cons.prems(2) g have "truthy_id (persistentId g)" by simp
    ultimately show "the (persistentId g) \<noteq> pid" by (cases "persistentId g") auto
  qed
  have same: "\<And>g. g \<in> set fs \<Longrightarrow> shouldLog enrolled reg1 now g = shouldLog enrolled reg now g"
    using others st1 by (auto simp: shouldLog_def split: if_splits)
  have IH: "snd (logFaces enrolled now fs (reg1, att1))
           = ((\<lambda>p. if \<exists>g\<in>set fs. persistentId g = Some p \<and> shouldLog enrolled reg1 now g
                      then Some now else reg1 p),
              att1 @ map (attendanceEvent now) (filter (shouldLog enrolled reg1 now) fs))"
    using Cons.IH[of reg1 att1] Cons.prems by simp
  have filt: "filter (shouldLog enrolled reg1 now) fs = filter (shouldLog enrolled reg now) fs"
    using same by (intro filter_cong) auto
  have regs: "(\<lambda>p. if \<exists>g\<in>set fs. persistentId g = Some p \<and> shouldLog enrolled reg1 now g
                      then Some now else reg1 p)
            = (\<lambda>p. if \<exists>g\<in>set (f # fs). persistentId g = Some p \<and> shouldLog enrolled reg now g
                      then Some now else reg p)"
  proof
    fix p
    have ex: "(\<exists>g\<in>set fs. persistentId g = Some p \<and> shouldLog enrolled reg1 now g)
            = (\<exists>g\<in>set fs. persistentId g = Some p \<and> shouldLog enrolled reg now g)"
      using same by blast
    show "(if \<exists>g\<in>set fs. persistentId g = Some p \<and> shouldLog enrolled reg1 now g
                      then Some now else reg1 p)
        = (if \<exists>g\<in>set (f # fs). persistentId g = Some p \<and> shouldLog enrolled reg now g
                      then Some now else reg p)"
      unfolding ex using st1 pid by (auto split: if_splits)
  qed
  have "snd (logFaces enrolled now (f # fs) (reg, att)) = snd (logFaces enrolled now fs (reg1, att1))"
    by (simp add: lf split: prod.split)
  also note IH
  finally show ?case using st1 by (simp only: regs filt) (auto split: if_splits)
qed

lemma logDue_registry_ok:
  "registry_ok reg \<Longrightarrow>
   logDue (reg pid) now
     = (reg pid = None \<or> (\<exists>t. reg pid = Some t \<and> now - t > 5 * 60 * 1000))"
  by (cases "reg pid") (auto simp: registry_ok_def ATTENDANCE_LOG_INTERVAL_MS_def)

lemma logFace_registry_ok:
  "now \<noteq> 0 \<Longrightarrow> registry_ok reg \<Longrightarrow>
   registry_ok (fst (snd (logFace enrolled now face (reg, att))))"
  by (auto simp: logFace_def registry_ok_def split: option.split)

lemma logFaces_registry_ok:
  "now \<noteq> 0 \<Longrightarrow> registry_ok reg \<Longrightarrow>
   registry_ok (fst (snd (logFaces enrolled now fs (reg, att))))"
proof (induction fs arbitrary: reg att)
  case Nil
  then show ?case by simp
next
  case (Cons f fs)
  obtain f' reg1 att1 where lf: "logFace enrolled now f (reg, att) = (f', reg1, att1)"
    by (cases "logFace enrolled now f (reg, att)")
  from logFace_registry_ok[OF Cons.prems, of enrolled f att] lf have "registry_ok reg1" by simp
  from Cons.IH[OF Cons.prems(1) this, of att1] show ?case
    by (auto simp: lf split: prod.split)
qed

text \<open>
  Claim C6. For every detection that a cycle has stamped with an identifier, in a state
  that a session reaches and with a registry whose timestamps are clock readings other
  than 0: the cycle emits an attendance event for that identifier if and only if the
  identifier is enrolled and either the registry has no entry for it or more than 5
  minutes have passed since its entry. The event carries the current time and the
  detection's emotion; on emission the registry entry of the identifier is the current
  time, otherwise it is unchanged. The decision reads the identifier's own entry only,
  as the registry stood before the cycle.
\<close>

theorem attendance_debounce:
  assumes fresh: "trackedFaces s0 = []" "nextFaceId s0 = 1"
      and s: "s = runCycles s0 cycles"
      and reg_ok: "registry_ok reg"
      and j: "j < length ds"
      and pid: "persistentId (fst (reconcile s ds now) ! j) = Some pid"
      and res: "snd (logFaces enrolled now (fst (reconcile s ds now)) (reg, att)) = (reg', att')"
  shows "\<exists>events. att' = att @ events
          \<and> ((\<exists>e\<in>set events. att_persistentId e = pid)
               \<longleftrightarrow> enrolled pid \<noteq> None
                   \<and> (reg pid = None \<or> (\<exists>t. reg pid = Some t \<and> now - t > 5 * 60 * 1000)))
          \<and> (\<forall>e\<in>set events. att_persistentId e = pid \<longrightarrow>
                 timestamp e = now \<and> att_emotion e = emotion (ds ! j))
          \<and> reg' pid = (if \<exists>e\<in>set events. att_persistentId e = pid then Some now else reg pid)"
proof -
  let ?out = "fst (reconcile s ds now)"
  let ?events = "map (attendanceEvent now) (filter (shouldLog enrolled reg now) ?out)"
  have inv: "tracker_inv s" unfolding s by (rule runCycles_inv[OF fresh_inv[OF fresh]])
  have len: "length ?out = length ds" by (rule reconcile_unfold(2)[OF inv refl refl refl])
  have dist: "distinct (map persistentId ?out)" by (rule reconcile_ids_distinct[OF inv])
  have truthy: "\<forall>f\<in>set ?out. truthy_id (persistentId f)"
  proof
    fix f assume "f \<in> set ?out"
    then obtain i where i: "i < length ds" "f = ?out ! i" by (auto simp: in_set_conv_nth len)
    from reconcile_ids_positive[OF inv i(1), of now] i(2) show "truthy_id (persistentId f)" by auto
  qed
  from logFaces_events[OF dist truthy, of enrolled now reg att] res
  have reg': "reg' = (\<lambda>p. if \<exists>f\<in>set ?out. persistentId f = Some p \<and> shouldLog enrolled reg now f
                      then Some now else reg p)"
    and att': "att' = att @ ?events"
    by simp_all
  have mem: "?out ! j \<in> set ?out" using j len by simp
  have uniq: "f = ?out ! j" if "f \<in> set ?out" "persistentId f = Some pid" for f
  proof -
    have "inj_on persistentId (set ?out)" using dist by (simp add: distinct_map)
    from inj_onD[OF this _ that(1) mem] that(2) pid show ?thesis by simp
  qed
  from reconcile_ids_positive[OF inv j, of now] pid
  have emo: "emotion (?out ! j) = emotion (ds ! j)" by auto
  have decide: "shouldLog enrolled reg now (?out ! j)
      = (enrolled pid \<noteq> None \<and> (reg pid = None \<or> (\<exists>t. reg pid = Some t \<and> now - t > 5 * 60 * 1000)))"
    by (simp add: shouldLog_def pid logDue_registry_ok[OF reg_ok])
  have ev: "(\<exists>e\<in>set ?events. att_persistentId e = pid) = shouldLog enrolled reg now (?out ! j)"
  proof
    assume "\<exists>e\<in>set ?events. att_persistentId e = pid"
    then obtain f where f: "f \<in> set ?out" "shouldLog enrolled reg now f" "the (persistentId f) = pid"
      by (auto simp: attendanceEvent_def)
    from truthy f(1) have "truthy_id (persistentId f)" by blast
    with f(3) have "persistentId f = Some pid" by (cases "persistentId f") auto
    from uniq[OF f(1) this] f(2) show "shouldLog enrolled reg now (?out ! j)" by simp
  next
    assume "shouldLog enrolled reg now (?out ! j)"
    with mem have "attendanceEvent now (?out ! j) \<in> set ?events" by simp
    moreover have "att_persistentId (attendanceEvent now (?out ! j)) = pid"
      by (simp add: attendanceEvent_def pid)
    ultimately show "\<exists>e\<in>set ?events. att_persistentId e = pid" by blast
  qed
  have fields: "timestamp e = now \<and> att_emotion e = emotion (ds ! j)"
    if "e \<in> set ?events" "att_persistentId e = pid" for e
  proof -
    from that obtain f where f: "f \<in> set ?out" "e = attendanceEvent now f" "the (persistentId f) = pid"
      by (auto simp: attendanceEvent_def)
    from truthy f(1) have "truthy_id (persistentId f)" by blast
    with f(3) have "persistentId f = Some pid" by (cases "persistentId f") auto
    from uniq[OF f(1) this] f(2) emo show ?thesis by (simp add: attendanceEvent_def)
  qed
  have regpid: "reg' pid = (if \<exists>e\<in>set ?events. att_persistentId e = pid then Some now else reg pid)"
  proof -
    have "(\<exists>f\<in>set ?out. persistentId f = Some pid \<and> shouldLog enrolled reg now f)
            = shouldLog enrolled reg now (?out ! j)"
      using uniq mem pid by blast
    then show ?thesis by (simp only: reg' ev)
  qed
  show ?thesis
  proof (intro exI[of _ ?events] conjI)
    show "att' = att @ ?events" by (rule att')
    show "(\<exists>e\<in>set ?events. att_persistentId e = pid)
            \<longleftrightarrow> enrolled pid \<noteq> None
                \<and> (reg pid = None \<or> (\<exists>t. reg pid = Some t \<and> now - t > 5 * 60 * 1000))"
      by (simp only: ev decide)
    show "\<forall>e\<in>set ?events. att_persistentId e = pid \<longrightarrow>
                 timestamp e = now \<and> att_emotion e = emotion (ds ! j)"
      using fields by blast
    show "reg' pid = (if \<exists>e\<in>set ?events. att_persistentId e = pid then Some now else reg pid)"
      by (rule regpid)
  qed
qed

theorem attendance_debounce_witness:
  "registry_ok [2 \<mapsto> 11000]
   \<and> map persistentId (fst (reconcile youngFirst thirdCycle 311000)) = [Some 2, Some 3]
   \<and> snd (snd (logFaces enrolledStudents 311000 (fst (reconcile youngFirst thirdCycle 311000))
                 ([2 \<mapsto> 11000], [])))
       = [\<lparr>att_persistentId = 3, timestamp = 311000, att_emotion = Neutral\<rparr>]
   \<and> snd (snd (logFaces enrolledStudents 311001 (fst (reconcile youngFirst thirdCycle 311001))
                 ([2 \<mapsto> 11000], [])))
       = [\<lparr>att_persistentId = 2, timestamp = 311001, att_emotion = Neutral\<rparr>,
          \<lparr>att_persistentId = 3, timestamp = 311001, att_emotion = Neutral\<rparr>]"
proof -
  have h1: "trackedFaces sessionStart = []" and h2: "nextFaceId sessionStart = 1"
    by (simp_all add: sessionStart_def)
  have ok: "registry_ok [2 \<mapsto> 11000]" by (simp add: registry_ok_def)
  have j: "0 < length thirdCycle" by (simp add: thirdCycle_def)
  have pid: "persistentId (fst (reconcile youngFirst thirdCycle now) ! 0) = Some 2" for now
    by (simp add: thirdCycle_reconcile)
  have res: "snd (logFaces enrolledStudents now (fst (reconcile youngFirst thirdCycle now))
                   ([2 \<mapsto> 11000], []))
       = (fst (snd (logFaces enrolledStudents now (fst (reconcile youngFirst thirdCycle now))
                   ([2 \<mapsto> 11000], []))),
          snd (snd (logFaces enrolledStudents now (fst (reconcile youngFirst thirdCycle now))
                   ([2 \<mapsto> 11000], []))))" for now
    by simp
  from attendance_debounce[OF h1 h2 youngFirst_run ok j pid res, of 311000]
       attendance_debounce[OF h1 h2 youngFirst_run ok j pid res, of 311001] ok
  show ?thesis
    by (simp add: thirdCycle_reconcile logFace_def enrolledStudents_def mkFace_def
          ATTENDANCE_LOG_INTERVAL_MS_def)
qed

section \<open>Failed cycles and the handlers\<close>

text \<open>
  Claim C9. When the detection call of a cycle fails with an error that is not the rate
  limit error, the Track Table and the next-identifier counter are after the cycle what
  they were before it: the cycle matches, creates, refreshes and expires no track.
\<close>

theorem failed_cycle_keeps_tracker:
  "trackedFaces (captureAndAnalyze env OtherFailure currentTime s) = trackedFaces s
   \<and> nextFaceId (captureAndAnalyze env OtherFailure currentTime s) = nextFaceId s"
  by (simp add: captureAndAnalyze_def)

theorem failed_cycle_keeps_tracker_witness:
  "trackedFaces (captureAndAnalyze readyEnv OtherFailure 31000 oneFaceApp)
     = [(1, \<lparr>trackBox = mkBox 0 0 10 10, lastSeen = 1000, geminiId = ''person_1''\<rparr>)]
   \<and> nextFaceId (captureAndAnalyze readyEnv OtherFailure 31000 oneFaceApp) = 2
   \<and> appError (captureAndAnalyze readyEnv OtherFailure 31000 oneFaceApp)
     = Some (''Analysis Failed'', ''Could not analyze the frame. Retrying automatically...'')"
  using failed_cycle_keeps_tracker[of readyEnv 31000 oneFaceApp]
  by (simp add: captureAndAnalyze_def oneFaceApp_def readyEnv_def handleStartCamera_def
      cameraError_def initialApp_def reconcile_def mkFace_def mkBox_def logFace_def)

lemma oneFaceApp_fields:
  "stream oneFaceApp \<and> nextFaceId oneFaceApp = 2
   \<and> trackedFaces oneFaceApp
     = [(1, \<lparr>trackBox = mkBox 0 0 10 10, lastSeen = 1000, geminiId = ''person_1''\<rparr>)]"
  by (simp add: captureAndAnalyze_def oneFaceApp_def readyEnv_def handleStartCamera_def
      cameraError_def initialApp_def reconcile_def mkFace_def mkBox_def logFace_def)

text \<open>
  Claim C3, as the code has it. When a capture session is active, the stop-capture
  operation clears the Track Table and ends the rate-limit pause (the paused flag is
  false afterwards); it leaves the next-identifier counter as it is. The counter is set
  to its initial value 1, and the table is cleared again, by the start-capture operation
  that begins the next session.
\<close>

theorem stop_clears_table_start_resets_counter:
  "stream s \<Longrightarrow>
     trackedFaces (handleStopCamera s) = []
   \<and> \<not> isPausedForRateLimit (handleStopCamera s)
   \<and> nextFaceId (handleStopCamera s) = nextFaceId s
   \<and> trackedFaces (handleStartCamera outcome (handleStopCamera s)) = []
   \<and> nextFaceId (handleStartCamera outcome (handleStopCamera s)) = 1"
  by (simp add: handleStopCamera_def handleStartCamera_def Let_def split: option.split)

theorem stop_clears_table_start_resets_counter_witness:
  "stream oneFaceApp
   \<and> trackedFaces (handleStopCamera oneFaceApp) = []
   \<and> nextFaceId (handleStopCamera oneFaceApp) = 2
   \<and> nextFaceId (handleStartCamera Granted (handleStopCamera oneFaceApp)) = 1"
  using stop_clears_table_start_resets_counter[of oneFaceApp Granted] oneFaceApp_fields
  by simp

text \<open>
  The claim as the specification states it fails: after one cycle that saw one face the
  counter is 2, and stopping the capture leaves it at 2.
\<close>

theorem stop_resets_counter_counterexample:
  "stream oneFaceApp \<and> nextFaceId (handleStopCamera oneFaceApp) \<noteq> 1"
  using oneFaceApp_fields by (simp add: handleStopCamera_def)

end
